theory Spec2Isabelle
  imports Main "HOL-Library.Word"
begin

section \<open>The software watchdog of ShrikeOS Monitor (src/watchdog.c)\<close>

text \<open>
  The watchdog keeps a table of \<open>WDG_MAX_THREADS\<close> entries, a count of allocated
  slots, a global enable flag and four aggregate counters, all protected by one mutex.
  Every public function takes the mutex for its whole body, so each call is one atomic
  step on the data; the model passes the data explicitly. The only place where the mutex
  is released in the middle of a step is around the recovery action in the checker. A
  registered callback is code from outside the module, and while it runs it, and any
  other thread, may call the public functions: the checker is given, for each
  invocation, the list of calls made on the watchdog while the mutex is released, and
  they take effect between the two halves of the checker's step. The invocations and
  the slots handed out by registrations are recorded in the order in which they happen.

  \<^item> \<open>uint32_t\<close> fields are \<open>32 word\<close>: \<open>++\<close> and \<open>*\<close> wrap around.
  \<^item> \<open>k_uptime_get()\<close> is a parameter \<open>now\<close> of the functions that read the clock.
    Uptimes and their differences are \<open>int\<close>: the source computes them in
    \<open>int64_t\<close>, where an overflow would be undefined behaviour.
  \<^item> \<open>wdg_count\<close> only ever holds \<open>0 .. WDG_MAX_THREADS\<close>; it is a \<open>nat\<close>.
  \<^item> A callback pointer is \<open>nat option\<close>; \<open>None\<close> is \<open>NULL\<close>.
  \<^item> Console output (\<open>printk\<close>) is not part of the model, except for the rows of the
    status dump.
\<close>

subsection \<open>Configuration and data\<close>

definition WDG_MAX_THREADS :: nat where
  "WDG_MAX_THREADS = 8"

datatype wdg_thread_state =
    WDG_STATE_IDLE
  | WDG_STATE_HEALTHY
  | WDG_STATE_WARNING
  | WDG_STATE_UNRESPONSIVE
  | WDG_STATE_RECOVERED

type_synonym wdg_recovery_cb_t = "nat option"

record wdg_entry =
  active :: bool
  name :: string
  timeout_ms :: "32 word"
  last_heartbeat :: int
  state :: wdg_thread_state
  recovery_cb :: wdg_recovery_cb_t
  heartbeat_count :: "32 word"
  timeout_count :: "32 word"
  recovery_count :: "32 word"

record wdg_stats_t =
  total_heartbeats :: "32 word"
  total_timeouts :: "32 word"
  total_recoveries :: "32 word"
  checks_performed :: "32 word"

record wdg =
  wdg_table :: "wdg_entry list"
  wdg_count :: nat
  wdg_enabled :: bool
  wdg_stats :: wdg_stats_t

text \<open>What \<open>memset(e, 0, sizeof(*e))\<close> leaves in an entry, and what static storage holds
  at start: \<open>WDG_STATE_IDLE\<close> is the enumerator 0.\<close>

definition zero_entry :: wdg_entry where
  "zero_entry = \<lparr>active = False, name = [], timeout_ms = 0, last_heartbeat = 0,
     state = WDG_STATE_IDLE, recovery_cb = None, heartbeat_count = 0,
     timeout_count = 0, recovery_count = 0\<rparr>"

definition wdg_init :: wdg where
  "wdg_init = \<lparr>wdg_table = replicate WDG_MAX_THREADS zero_entry, wdg_count = 0,
     wdg_enabled = True,
     wdg_stats = \<lparr>total_heartbeats = 0, total_timeouts = 0, total_recoveries = 0,
       checks_performed = 0\<rparr>\<rparr>"

text \<open>One invocation of a recovery action by the checker: the slot it was made for, the
  action (\<open>cb\<close> if the entry has one, \<open>wdg_default_recovery\<close> otherwise) and its two
  arguments.\<close>

datatype recovery_action = Callback nat | Default_recovery

record recovery_call =
  rc_slot :: nat
  rc_action :: recovery_action
  rc_name :: string
  rc_elapsed :: "32 word"

subsection \<open>Public API\<close>

text \<open>\<open>wdg_register\<close>: \<open>-1\<close> when the table is full, else the next slot, which is zeroed
  and filled in. \<open>strncpy\<close> keeps at most 23 characters of the name.\<close>

definition wdg_register ::
  "string \<Rightarrow> 32 word \<Rightarrow> wdg_recovery_cb_t \<Rightarrow> int \<Rightarrow> wdg \<Rightarrow> int \<times> wdg" where
  "wdg_register nm tmo cb now w =
     (if wdg_count w \<ge> WDG_MAX_THREADS then (- 1, w)
      else
        let slot = wdg_count w;
            e = zero_entry\<lparr>active := True, name := take 23 nm, timeout_ms := tmo,
                  last_heartbeat := now, state := WDG_STATE_IDLE, recovery_cb := cb,
                  heartbeat_count := 0, timeout_count := 0, recovery_count := 0\<rparr>
        in (int slot, w\<lparr>wdg_count := slot + 1, wdg_table := (wdg_table w)[slot := e]\<rparr>))"

definition wdg_heartbeat :: "int \<Rightarrow> int \<Rightarrow> wdg \<Rightarrow> wdg" where
  "wdg_heartbeat slot now w =
     (if slot < 0 \<or> slot \<ge> int WDG_MAX_THREADS then w
      else
        let e = wdg_table w ! nat slot in
        if active e then
          w\<lparr>wdg_table := (wdg_table w)[nat slot :=
                e\<lparr>last_heartbeat := now, state := WDG_STATE_HEALTHY,
                  heartbeat_count := heartbeat_count e + 1\<rparr>],
            wdg_stats := (wdg_stats w)\<lparr>total_heartbeats :=
                total_heartbeats (wdg_stats w) + 1\<rparr>\<rparr>
        else w)"

definition wdg_unregister :: "int \<Rightarrow> wdg \<Rightarrow> wdg" where
  "wdg_unregister slot w =
     (if slot < 0 \<or> slot \<ge> int WDG_MAX_THREADS then w
      else
        let e = wdg_table w ! nat slot in
        if active e then w\<lparr>wdg_table := (wdg_table w)[nat slot := e\<lparr>active := False\<rparr>]\<rparr>
        else w)"

definition wdg_enable :: "bool \<Rightarrow> wdg \<Rightarrow> wdg" where
  "wdg_enable enable w = w\<lparr>wdg_enabled := enable\<rparr>"

definition wdg_get_state :: "int \<Rightarrow> wdg \<Rightarrow> wdg_thread_state" where
  "wdg_get_state slot w =
     (if slot < 0 \<or> slot \<ge> int WDG_MAX_THREADS then WDG_STATE_IDLE
      else state (wdg_table w ! nat slot))"

definition wdg_get_healthy_count :: "wdg \<Rightarrow> int" where
  "wdg_get_healthy_count w =
     int (length (filter (\<lambda>i. active (wdg_table w ! i) \<and>
                               state (wdg_table w ! i) = WDG_STATE_HEALTHY)
                  [0..<wdg_count w]))"

text \<open>\<open>wdg_dump_status\<close> only prints: the header line with the flag and the aggregates,
  and one row (slot, name, state, timeout, beats, fails) for each active entry.\<close>

definition wdg_dump_status ::
  "wdg \<Rightarrow> (bool \<times> wdg_stats_t) \<times>
          (nat \<times> string \<times> wdg_thread_state \<times> 32 word \<times> 32 word \<times> 32 word) list" where
  "wdg_dump_status w =
     ((wdg_enabled w, wdg_stats w),
      map (\<lambda>i. let e = wdg_table w ! i
               in (i, name e, state e, timeout_ms e, heartbeat_count e, timeout_count e))
          (filter (\<lambda>i. active (wdg_table w ! i)) [0..<wdg_count w]))"

subsection \<open>Calls on the public API\<close>

text \<open>The calls that threads make on the watchdog, each with the uptime it reads where
  it reads one, and what a run of calls leaves behind: the data, and the record of what
  happened so far. A registration that succeeds records the slot it returns.\<close>

datatype wdg_call =
    Register string "32 word" wdg_recovery_cb_t int
  | Heartbeat int int
  | Unregister int
  | Enable bool
  | Get_state int
  | Get_healthy_count
  | Dump_status

datatype wdg_event = Registered int | Invoked recovery_call

fun wdg_exec :: "wdg_call \<Rightarrow> wdg \<times> wdg_event list \<Rightarrow> wdg \<times> wdg_event list" where
  "wdg_exec (Register nm tmo cb now) (w, tr) =
     (snd (wdg_register nm tmo cb now w),
      tr @ (if fst (wdg_register nm tmo cb now w) = - 1 then []
            else [Registered (fst (wdg_register nm tmo cb now w))]))"
| "wdg_exec (Heartbeat slot now) (w, tr) = (wdg_heartbeat slot now w, tr)"
| "wdg_exec (Unregister slot) (w, tr) = (wdg_unregister slot w, tr)"
| "wdg_exec (Enable b) (w, tr) = (wdg_enable b w, tr)"
| "wdg_exec (Get_state slot) (w, tr) = (w, tr)"
| "wdg_exec Get_healthy_count (w, tr) = (w, tr)"
| "wdg_exec Dump_status (w, tr) = (w, tr)"

fun wdg_exec_all ::
  "wdg_call list \<Rightarrow> wdg \<times> wdg_event list \<Rightarrow> wdg \<times> wdg_event list" where
  "wdg_exec_all [] wt = wt"
| "wdg_exec_all (c # cs) wt = wdg_exec_all cs (wdg_exec c wt)"

text \<open>The slots handed out, and the recovery actions invoked, according to a record;
  and the recovery actions invoked for one slot.\<close>

fun wdg_slots :: "wdg_event list \<Rightarrow> int list" where
  "wdg_slots [] = []"
| "wdg_slots (Registered s # tr) = s # wdg_slots tr"
| "wdg_slots (Invoked c # tr) = wdg_slots tr"

fun wdg_invoked :: "wdg_event list \<Rightarrow> recovery_call list" where
  "wdg_invoked [] = []"
| "wdg_invoked (Registered s # tr) = wdg_invoked tr"
| "wdg_invoked (Invoked c # tr) = c # wdg_invoked tr"

definition wdg_invoked_for :: "nat \<Rightarrow> wdg_event list \<Rightarrow> recovery_call list" where
  "wdg_invoked_for i tr = filter (\<lambda>c. rc_slot c = i) (wdg_invoked tr)"

subsection \<open>The checker thread\<close>

text \<open>\<open>wdg_checker_fn\<close> never returns. One pass of its \<open>while (1)\<close> loop is
  \<open>wdg_checker_tick\<close> below, the \<open>for\<close> loop over the slots is \<open>wdg_check_loop\<close>
  and the body of the \<open>for\<close> loop is \<open>wdg_check_entry\<close>.

  The writes of the timeout branch: before the mutex is released the entry is marked
  unresponsive and counted (\<open>wdg_timeout_begin\<close>), and after the mutex is taken again
  the entry that is then in the slot is marked recovered and counted
  (\<open>wdg_timeout_end\<close>). The write of the warning branch is \<open>wdg_warn\<close>.\<close>

definition wdg_mark_unresponsive :: "wdg_entry \<Rightarrow> wdg_entry" where
  "wdg_mark_unresponsive e =
     e\<lparr>state := WDG_STATE_UNRESPONSIVE, timeout_count := timeout_count e + 1\<rparr>"

definition wdg_mark_recovered :: "wdg_entry \<Rightarrow> wdg_entry" where
  "wdg_mark_recovered e =
     e\<lparr>state := WDG_STATE_RECOVERED, recovery_count := recovery_count e + 1\<rparr>"

definition wdg_timeout_begin :: "nat \<Rightarrow> wdg \<Rightarrow> wdg" where
  "wdg_timeout_begin i w =
     w\<lparr>wdg_table := (wdg_table w)[i := wdg_mark_unresponsive (wdg_table w ! i)],
       wdg_stats := (wdg_stats w)\<lparr>total_timeouts := total_timeouts (wdg_stats w) + 1\<rparr>\<rparr>"

definition wdg_timeout_end :: "nat \<Rightarrow> wdg \<Rightarrow> wdg" where
  "wdg_timeout_end i w =
     w\<lparr>wdg_table := (wdg_table w)[i := wdg_mark_recovered (wdg_table w ! i)],
       wdg_stats := (wdg_stats w)\<lparr>total_recoveries :=
          total_recoveries (wdg_stats w) + 1\<rparr>\<rparr>"

definition wdg_warn :: "nat \<Rightarrow> wdg \<Rightarrow> wdg" where
  "wdg_warn i w =
     w\<lparr>wdg_table := (wdg_table w)[i := (wdg_table w ! i)\<lparr>state := WDG_STATE_WARNING\<rparr>]\<rparr>"

text \<open>The action that is invoked: \<open>cb\<close> if it is not \<open>NULL\<close>, else
  \<open>wdg_default_recovery\<close>; and the invocation with the values captured under the
  mutex (\<open>cb\<close>, \<open>ename\<close>, \<open>el = (uint32_t)elapsed\<close>). The callback and the name
  are fields that the marking just before does not write.\<close>

definition wdg_recovery_action :: "wdg_recovery_cb_t \<Rightarrow> recovery_action" where
  "wdg_recovery_action cb = (case cb of Some f \<Rightarrow> Callback f | None \<Rightarrow> Default_recovery)"

definition wdg_capture :: "nat \<Rightarrow> int \<Rightarrow> wdg_entry \<Rightarrow> recovery_call" where
  "wdg_capture i elapsed e =
     \<lparr>rc_slot = i, rc_action = wdg_recovery_action (recovery_cb e), rc_name = name e,
      rc_elapsed = word_of_int elapsed\<rparr>"

text \<open>What happens on the watchdog while the mutex is released for an invocation: the
  calls made by the recovery action and by other threads, given the invocation and the
  data at the moment of the release.\<close>

type_synonym wdg_window = "recovery_call \<Rightarrow> wdg \<Rightarrow> wdg_call list"

text \<open>The body of the \<open>for\<close> loop for slot \<open>i\<close>. \<open>timeout_ms * 3 / 4\<close> is computed in
  \<open>uint32_t\<close>.\<close>

definition wdg_check_entry ::
  "wdg_window \<Rightarrow> int \<Rightarrow> nat \<Rightarrow> wdg \<times> wdg_event list \<Rightarrow> wdg \<times> wdg_event list" where
  "wdg_check_entry env now i wt =
     (let w = fst wt; e = wdg_table w ! i in
      if \<not> active e then wt
      else
        let elapsed = now - last_heartbeat e in
        if elapsed > uint (timeout_ms e) then
          (if state e \<noteq> WDG_STATE_UNRESPONSIVE \<and> state e \<noteq> WDG_STATE_RECOVERED then
             let w1 = wdg_timeout_begin i w;
                 call = wdg_capture i elapsed e;
                 wt1 = wdg_exec_all (env call w1) (w1, snd wt @ [Invoked call])
             in (wdg_timeout_end i (fst wt1), snd wt1)
           else wt)
        else if elapsed > uint (timeout_ms e * 3 div 4) then
          (if state e = WDG_STATE_HEALTHY then (wdg_warn i w, snd wt) else wt)
        else wt)"

text \<open>The \<open>for\<close> loop, from slot \<open>i\<close> on; the bound \<open>wdg_count\<close> is read again before
  every iteration, and a registration made while the mutex was released may have
  raised it, though never above \<open>WDG_MAX_THREADS\<close>.\<close>

function wdg_check_loop ::
  "wdg_window \<Rightarrow> int \<Rightarrow> nat \<Rightarrow> wdg \<times> wdg_event list \<Rightarrow> wdg \<times> wdg_event list" where
  "wdg_check_loop env now i wt =
     (if i < wdg_count (fst wt)
      then wdg_check_loop env now (Suc i) (wdg_check_entry env now i wt)
      else wt)"
  by pat_completeness auto
termination
proof (relation "measure (\<lambda>(env, now, i, wt). max WDG_MAX_THREADS (wdg_count (fst wt)) - i)")
  show "wf (measure (\<lambda>(env, now, i, wt). max WDG_MAX_THREADS (wdg_count (fst wt)) - i))"
    by simp
next
  fix env :: wdg_window and now :: int and i :: nat and wt :: "wdg \<times> wdg_event list"
  assume lt: "i < wdg_count (fst wt)"
  have one: "max WDG_MAX_THREADS (wdg_count (fst (wdg_exec c x)))
      = max WDG_MAX_THREADS (wdg_count (fst x))" for c x
    by (cases c; cases x)
       (auto simp: wdg_register_def wdg_heartbeat_def wdg_unregister_def wdg_enable_def
          Let_def)
  have many: "max WDG_MAX_THREADS (wdg_count (fst (wdg_exec_all cs x)))
      = max WDG_MAX_THREADS (wdg_count (fst x))" for cs x
    by (induction cs arbitrary: x) (simp_all add: one)
  have "max WDG_MAX_THREADS (wdg_count (fst (wdg_check_entry env now i wt)))
      = max WDG_MAX_THREADS (wdg_count (fst wt))"
    by (simp add: wdg_check_entry_def Let_def many wdg_timeout_begin_def
          wdg_timeout_end_def wdg_warn_def)
  with lt show "((env, now, Suc i, wdg_check_entry env now i wt), env, now, i, wt)
      \<in> measure (\<lambda>(env, now, i, wt). max WDG_MAX_THREADS (wdg_count (fst wt)) - i)"
    by simp
qed

declare wdg_check_loop.simps [simp del]

text \<open>One pass of the \<open>while (1)\<close> loop after the sleep, at uptime \<open>now\<close>.\<close>

definition wdg_checker_tick ::
  "wdg_window \<Rightarrow> int \<Rightarrow> wdg \<times> wdg_event list \<Rightarrow> wdg \<times> wdg_event list" where
  "wdg_checker_tick env now wt =
     (if \<not> wdg_enabled (fst wt) then wt
      else wdg_check_loop env now 0
             ((fst wt)\<lparr>wdg_stats := (wdg_stats (fst wt))\<lparr>checks_performed :=
                   checks_performed (wdg_stats (fst wt)) + 1\<rparr>\<rparr>, snd wt))"

subsection \<open>Runs\<close>

text \<open>A run is a sequence of steps, each a call of a thread or a pass of the checker, one
  after the other as the mutex orders them.\<close>

datatype wdg_op = Call wdg_call | Checker_tick int

fun wdg_step ::
  "wdg_window \<Rightarrow> wdg_op \<Rightarrow> wdg \<times> wdg_event list \<Rightarrow> wdg \<times> wdg_event list" where
  "wdg_step env (Call c) wt = wdg_exec c wt"
| "wdg_step env (Checker_tick now) wt = wdg_checker_tick env now wt"

fun wdg_run ::
  "wdg_window \<Rightarrow> wdg_op list \<Rightarrow> wdg \<times> wdg_event list \<Rightarrow> wdg \<times> wdg_event list" where
  "wdg_run env [] wt = wt"
| "wdg_run env (op # ops) wt = wdg_run env ops (wdg_step env op wt)"

text \<open>No call is made while the mutex is released: the recovery actions only print.\<close>

definition wdg_no_calls :: wdg_window where
  "wdg_no_calls call w = []"

subsection \<open>Well-formed data\<close>

text \<open>The table has \<open>WDG_MAX_THREADS\<close> entries, the count is within it, and the slots
  not yet handed out are as static storage left them.\<close>

definition wdg_wf :: "wdg \<Rightarrow> bool" where
  "wdg_wf w \<longleftrightarrow>
     length (wdg_table w) = WDG_MAX_THREADS \<and> wdg_count w \<le> WDG_MAX_THREADS \<and>
     drop (wdg_count w) (wdg_table w) = replicate (WDG_MAX_THREADS - wdg_count w) zero_entry"

text \<open>Each aggregate is the sum, in \<open>uint32_t\<close> arithmetic, of the per-entry counter
  over the whole table.\<close>

definition wdg_sums :: "wdg \<Rightarrow> bool" where
  "wdg_sums w \<longleftrightarrow>
     total_heartbeats (wdg_stats w) = sum_list (map heartbeat_count (wdg_table w)) \<and>
     total_timeouts (wdg_stats w) = sum_list (map timeout_count (wdg_table w)) \<and>
     total_recoveries (wdg_stats w) = sum_list (map recovery_count (wdg_table w))"

text \<open>The loop body of the checker at uptime \<open>now\<close> writes nothing for this entry.\<close>

definition wdg_untouched :: "int \<Rightarrow> wdg_entry \<Rightarrow> bool" where
  "wdg_untouched now e =
     (if \<not> active e then True
      else if now - last_heartbeat e > uint (timeout_ms e)
        then state e = WDG_STATE_UNRESPONSIVE \<or> state e = WDG_STATE_RECOVERED
      else if now - last_heartbeat e > uint (timeout_ms e * 3 div 4)
        then state e \<noteq> WDG_STATE_HEALTHY
      else True)"

text \<open>What identifies the thread an entry stands for: the fields that only
  \<open>wdg_register\<close> writes.\<close>

definition wdg_entry_ident :: "wdg_entry \<Rightarrow> string \<times> 32 word \<times> wdg_recovery_cb_t" where
  "wdg_entry_ident e = (name e, timeout_ms e, recovery_cb e)"

text \<open>A recovery action that sends a heartbeat for the slot it was invoked for, at
  uptime \<open>t\<close>, before it returns.\<close>

definition wdg_beats_own_slot :: "int \<Rightarrow> wdg_window" where
  "wdg_beats_own_slot t call w = [Heartbeat (int (rc_slot call)) t]"

section \<open>Rules for carrying a property through the checker and through runs\<close>

lemma wdg_exec_all_rule:
  assumes "P wt" and "\<And>c x. c \<in> set cs \<Longrightarrow> P x \<Longrightarrow> P (wdg_exec c x)"
  shows "P (wdg_exec_all cs wt)"
  using assms by (induction cs arbitrary: wt) simp_all

lemma wdg_check_entry_rule:
  fixes wt :: "wdg \<times> wdg_event list" and j :: nat and now :: int
  defines "e \<equiv> wdg_table (fst wt) ! j"
  defines "call \<equiv> wdg_capture j (now - last_heartbeat e) e"
  assumes p: "P wt"
    and beg: "\<lbrakk>active e; uint (timeout_ms e) < now - last_heartbeat e;
               state e \<noteq> WDG_STATE_UNRESPONSIVE; state e \<noteq> WDG_STATE_RECOVERED\<rbrakk>
              \<Longrightarrow> Q (wdg_timeout_begin j (fst wt), snd wt @ [Invoked call])"
    and win: "\<And>c x. \<lbrakk>c \<in> set (env call (wdg_timeout_begin j (fst wt))); Q x\<rbrakk>
              \<Longrightarrow> Q (wdg_exec c x)"
    and fin: "\<And>x. Q x \<Longrightarrow> P (wdg_timeout_end j (fst x), snd x)"
    and wrn: "\<lbrakk>active e; state e = WDG_STATE_HEALTHY;
               \<not> uint (timeout_ms e) < now - last_heartbeat e;
               uint (timeout_ms e * 3 div 4) < now - last_heartbeat e\<rbrakk>
              \<Longrightarrow> P (wdg_warn j (fst wt), snd wt)"
  shows "P (wdg_check_entry env now j wt)"
proof -
  let ?out = "active e \<and> uint (timeout_ms e) < now - last_heartbeat e
      \<and> state e \<noteq> WDG_STATE_UNRESPONSIVE \<and> state e \<noteq> WDG_STATE_RECOVERED"
  let ?warn = "active e \<and> \<not> uint (timeout_ms e) < now - last_heartbeat e
      \<and> uint (timeout_ms e * 3 div 4) < now - last_heartbeat e \<and> state e = WDG_STATE_HEALTHY"
  show ?thesis
  proof (cases ?out)
    case True
    let ?w1 = "wdg_timeout_begin j (fst wt)"
    let ?x = "wdg_exec_all (env call ?w1) (?w1, snd wt @ [Invoked call])"
    from True have eq: "wdg_check_entry env now j wt = (wdg_timeout_end j (fst ?x), snd ?x)"
      by (simp add: wdg_check_entry_def Let_def e_def call_def)
    from True have "Q (?w1, snd wt @ [Invoked call])" by (intro beg) simp_all
    then have "Q ?x"
      by (rule wdg_exec_all_rule [where P = Q]) (rule win)
    then show ?thesis unfolding eq by (rule fin)
  next
    case nout: False
    show ?thesis
    proof (cases ?warn)
      case True
      then have "wdg_check_entry env now j wt = (wdg_warn j (fst wt), snd wt)"
        by (simp add: wdg_check_entry_def Let_def e_def)
      with True wrn show ?thesis by simp
    next
      case False
      with nout have "wdg_check_entry env now j wt = wt"
        by (auto simp: wdg_check_entry_def Let_def e_def)
      with p show ?thesis by simp
    qed
  qed
qed

lemma wdg_check_loop_rule:
  assumes "P k wt"
    and "\<And>j x. P j x \<Longrightarrow> j < wdg_count (fst x) \<Longrightarrow> P (Suc j) (wdg_check_entry env now j x)"
    and "\<And>j x. P j x \<Longrightarrow> \<not> j < wdg_count (fst x) \<Longrightarrow> R x"
  shows "R (wdg_check_loop env now k wt)"
  using assms
proof (induction env now k wt rule: wdg_check_loop.induct)
  case (1 env now i wt)
  show ?case
  proof (cases "i < wdg_count (fst wt)")
    case True
    have "R (wdg_check_loop env now (Suc i) (wdg_check_entry env now i wt))"
      by (rule "1.IH" [OF True "1.prems"(2) [OF "1.prems"(1) True]])
         (fact "1.prems"(2), fact "1.prems"(3))
    with True show ?thesis by (subst wdg_check_loop.simps) simp
  next
    case False
    with "1.prems"(3) [OF "1.prems"(1) False] show ?thesis
      by (subst wdg_check_loop.simps) simp
  qed
qed

lemma wdg_checker_tick_rule:
  assumes "P wt"
    and "P wt \<Longrightarrow> P ((fst wt)\<lparr>wdg_stats := (wdg_stats (fst wt))\<lparr>checks_performed :=
                   checks_performed (wdg_stats (fst wt)) + 1\<rparr>\<rparr>, snd wt)"
    and "\<And>j x. P x \<Longrightarrow> j < wdg_count (fst x) \<Longrightarrow> P (wdg_check_entry env now j x)"
  shows "P (wdg_checker_tick env now wt)"
proof (cases "wdg_enabled (fst wt)")
  case True
  have "P (wdg_check_loop env now 0
      ((fst wt)\<lparr>wdg_stats := (wdg_stats (fst wt))\<lparr>checks_performed :=
                   checks_performed (wdg_stats (fst wt)) + 1\<rparr>\<rparr>, snd wt))"
    by (rule wdg_check_loop_rule [where P = "\<lambda>j. P" and R = P])
       (use assms in auto)
  with True show ?thesis by (simp add: wdg_checker_tick_def)
next
  case False
  with assms(1) show ?thesis by (simp add: wdg_checker_tick_def)
qed

lemma wdg_run_rule:
  assumes "P wt" and "\<And>op x. op \<in> set ops \<Longrightarrow> P x \<Longrightarrow> P (wdg_step env op x)"
  shows "P (wdg_run env ops wt)"
  using assms by (induction ops arbitrary: wt) simp_all

section \<open>Facts about single calls and the writes of the checker\<close>

lemma wdg_wf_iff:
  "wdg_wf w \<longleftrightarrow> length (wdg_table w) = WDG_MAX_THREADS \<and> wdg_count w \<le> WDG_MAX_THREADS \<and>
     (\<forall>j. wdg_count w \<le> j \<and> j < WDG_MAX_THREADS \<longrightarrow> wdg_table w ! j = zero_entry)"
  unfolding wdg_wf_def
  by (auto simp: list_eq_iff_nth_eq) (metis add.commute le_add1 less_diff_conv nat_le_iff_add add_diff_cancel_left')+

lemma wdg_slots_append [simp]:
  "wdg_slots (a @ b) = wdg_slots a @ wdg_slots b"
  by (induction a rule: wdg_slots.induct) simp_all

lemma wdg_invoked_append [simp]:
  "wdg_invoked (a @ b) = wdg_invoked a @ wdg_invoked b"
  by (induction a rule: wdg_invoked.induct) simp_all

lemma wdg_invoked_for_append [simp]:
  "wdg_invoked_for i (a @ b) = wdg_invoked_for i a @ wdg_invoked_for i b"
  by (simp add: wdg_invoked_for_def)

lemma wdg_register_ok:
  assumes "wdg_count w < WDG_MAX_THREADS"
  shows "wdg_register nm T cb t0 w =
     (int (wdg_count w),
      w\<lparr>wdg_count := wdg_count w + 1,
        wdg_table := (wdg_table w)[wdg_count w :=
          \<lparr>active = True, name = take 23 nm, timeout_ms = T, last_heartbeat = t0,
           state = WDG_STATE_IDLE, recovery_cb = cb, heartbeat_count = 0,
           timeout_count = 0, recovery_count = 0\<rparr>]\<rparr>)"
  using assms by (simp add: wdg_register_def zero_entry_def Let_def)

lemma wdg_exec_invoked [simp]:
  "wdg_invoked (snd (wdg_exec c wt)) = wdg_invoked (snd wt)"
  by (cases c; cases wt) simp_all

lemma wdg_exec_all_invoked [simp]:
  "wdg_invoked (snd (wdg_exec_all cs wt)) = wdg_invoked (snd wt)"
  by (induction cs arbitrary: wt) simp_all

lemma wdg_exec_wf:
  assumes "wdg_wf (fst wt)"
  shows "wdg_wf (fst (wdg_exec c wt))"
proof (cases wt)
  case (Pair w tr)
  with assms have wf: "wdg_wf w" by simp
  show ?thesis
  proof (cases c)
    case (Register nm tmo cb now)
    with wf Pair show ?thesis
      by (auto simp: wdg_wf_iff wdg_register_def Let_def)
  next
    case (Heartbeat slot now)
    with wf Pair show ?thesis
      by (auto simp: wdg_wf_iff wdg_heartbeat_def Let_def nth_list_update zero_entry_def)
  next
    case (Unregister slot)
    with wf Pair show ?thesis
      by (auto simp: wdg_wf_iff wdg_unregister_def Let_def nth_list_update zero_entry_def)
  qed (use wf Pair in \<open>simp_all add: wdg_wf_def wdg_enable_def\<close>)
qed

lemma wdg_exec_count_mono:
  "wdg_count (fst wt) \<le> wdg_count (fst (wdg_exec c wt))"
  by (cases c; cases wt)
     (simp_all add: wdg_register_def wdg_heartbeat_def wdg_unregister_def wdg_enable_def Let_def)

lemma wdg_exec_totals:
  "total_timeouts (wdg_stats (fst (wdg_exec c wt))) = total_timeouts (wdg_stats (fst wt))"
  "total_recoveries (wdg_stats (fst (wdg_exec c wt))) = total_recoveries (wdg_stats (fst wt))"
  by (cases c; cases wt;
      simp add: wdg_register_def wdg_heartbeat_def wdg_unregister_def wdg_enable_def Let_def)+

text \<open>What a call can do to the entry in a slot that has been handed out.\<close>

lemma wdg_exec_entry:
  assumes i: "i < wdg_count (fst wt)"
  shows "timeout_count (wdg_table (fst (wdg_exec c wt)) ! i) = timeout_count (wdg_table (fst wt) ! i)"
    and "recovery_count (wdg_table (fst (wdg_exec c wt)) ! i) = recovery_count (wdg_table (fst wt) ! i)"
    and "wdg_entry_ident (wdg_table (fst (wdg_exec c wt)) ! i) = wdg_entry_ident (wdg_table (fst wt) ! i)"
    and "\<forall>t. c \<noteq> Heartbeat (int i) t \<Longrightarrow>
           wdg_table (fst (wdg_exec c wt)) ! i = wdg_table (fst wt) ! i
         \<or> c = Unregister (int i)
           \<and> wdg_table (fst (wdg_exec c wt)) ! i = (wdg_table (fst wt) ! i)\<lparr>active := False\<rparr>"
proof -
  obtain w tr where wt: "wt = (w, tr)" by (cases wt)
  have upd: "((wdg_table w)[k := f (wdg_table w ! k)]) ! i
      = (if k = i \<and> i < length (wdg_table w) then f (wdg_table w ! i) else wdg_table w ! i)"
    for k and f :: "wdg_entry \<Rightarrow> wdg_entry"
    by (cases "k = i") (auto simp: nth_list_update list_update_beyond not_less)
  have natslot: "0 \<le> slot \<Longrightarrow> (nat slot = i) = (slot = int i)" for slot
    by auto
  show "timeout_count (wdg_table (fst (wdg_exec c wt)) ! i) = timeout_count (wdg_table (fst wt) ! i)"
    using i by (cases c) (auto simp: wt wdg_register_def wdg_heartbeat_def wdg_unregister_def
        wdg_enable_def Let_def upd [where f = "\<lambda>e. e\<lparr>last_heartbeat := _, state := _, heartbeat_count := heartbeat_count e + 1\<rparr>"]
        upd [where f = "\<lambda>e. e\<lparr>active := False\<rparr>"])
  show "recovery_count (wdg_table (fst (wdg_exec c wt)) ! i) = recovery_count (wdg_table (fst wt) ! i)"
    using i by (cases c) (auto simp: wt wdg_register_def wdg_heartbeat_def wdg_unregister_def
        wdg_enable_def Let_def upd [where f = "\<lambda>e. e\<lparr>last_heartbeat := _, state := _, heartbeat_count := heartbeat_count e + 1\<rparr>"]
        upd [where f = "\<lambda>e. e\<lparr>active := False\<rparr>"])
  show "wdg_entry_ident (wdg_table (fst (wdg_exec c wt)) ! i) = wdg_entry_ident (wdg_table (fst wt) ! i)"
    using i by (cases c) (auto simp: wt wdg_register_def wdg_heartbeat_def wdg_unregister_def
        wdg_enable_def Let_def wdg_entry_ident_def upd [where f = "\<lambda>e. e\<lparr>last_heartbeat := _, state := _, heartbeat_count := heartbeat_count e + 1\<rparr>"]
        upd [where f = "\<lambda>e. e\<lparr>active := False\<rparr>"])
  show "wdg_table (fst (wdg_exec c wt)) ! i = wdg_table (fst wt) ! i
         \<or> c = Unregister (int i)
           \<and> wdg_table (fst (wdg_exec c wt)) ! i = (wdg_table (fst wt) ! i)\<lparr>active := False\<rparr>"
    if "\<forall>t. c \<noteq> Heartbeat (int i) t"
    using i that by (cases c) (auto simp: wt wdg_register_def wdg_heartbeat_def wdg_unregister_def
        wdg_enable_def Let_def natslot upd [where f = "\<lambda>e. e\<lparr>active := False\<rparr>"])
qed

lemma wdg_writes_frame [simp]:
  "wdg_count (wdg_timeout_begin j w) = wdg_count w"
  "wdg_count (wdg_timeout_end j w) = wdg_count w"
  "wdg_count (wdg_warn j w) = wdg_count w"
  "wdg_enabled (wdg_timeout_begin j w) = wdg_enabled w"
  "wdg_enabled (wdg_timeout_end j w) = wdg_enabled w"
  "wdg_enabled (wdg_warn j w) = wdg_enabled w"
  "length (wdg_table (wdg_timeout_begin j w)) = length (wdg_table w)"
  "length (wdg_table (wdg_timeout_end j w)) = length (wdg_table w)"
  "length (wdg_table (wdg_warn j w)) = length (wdg_table w)"
  by (simp_all add: wdg_timeout_begin_def wdg_timeout_end_def wdg_warn_def)

lemma wdg_writes_other [simp]:
  assumes "j \<noteq> i"
  shows "wdg_table (wdg_timeout_begin j w) ! i = wdg_table w ! i"
    and "wdg_table (wdg_timeout_end j w) ! i = wdg_table w ! i"
    and "wdg_table (wdg_warn j w) ! i = wdg_table w ! i"
  using assms by (simp_all add: wdg_timeout_begin_def wdg_timeout_end_def wdg_warn_def)

lemma wdg_writes_wf:
  assumes "wdg_wf w" and "j < wdg_count w"
  shows "wdg_wf (wdg_timeout_begin j w)" and "wdg_wf (wdg_timeout_end j w)"
    and "wdg_wf (wdg_warn j w)"
  using assms
  by (auto simp: wdg_wf_iff wdg_timeout_begin_def wdg_timeout_end_def wdg_warn_def)

lemma wdg_capture_slot [simp]: "rc_slot (wdg_capture j el e) = j"
  by (simp add: wdg_capture_def)

lemma wdg_invoked_for_simps [simp]:
  "wdg_invoked_for i [] = []"
  "wdg_invoked_for i (Invoked c # tr) = (if rc_slot c = i then c # wdg_invoked_for i tr
     else wdg_invoked_for i tr)"
  "wdg_invoked_for i (Registered s # tr) = wdg_invoked_for i tr"
  by (simp_all add: wdg_invoked_for_def)

lemma wdg_exec_invoked_for [simp]:
  "wdg_invoked_for i (snd (wdg_exec c wt)) = wdg_invoked_for i (snd wt)"
  by (simp add: wdg_invoked_for_def)

lemma wdg_check_entry_wf:
  assumes "wdg_wf (fst wt)" and "j < wdg_count (fst wt)"
  shows "wdg_wf (fst (wdg_check_entry env now j wt))
       \<and> wdg_count (fst wt) \<le> wdg_count (fst (wdg_check_entry env now j wt))"
proof (rule wdg_check_entry_rule
    [where P = "\<lambda>x :: wdg \<times> wdg_event list. wdg_wf (fst x) \<and> wdg_count (fst wt) \<le> wdg_count (fst x)"
       and Q = "\<lambda>x :: wdg \<times> wdg_event list. wdg_wf (fst x) \<and> wdg_count (fst wt) \<le> wdg_count (fst x)"])
  show "wdg_wf (fst wt) \<and> wdg_count (fst wt) \<le> wdg_count (fst wt)"
    using assms by simp
next
  fix c and x :: "wdg \<times> wdg_event list"
  assume "wdg_wf (fst x) \<and> wdg_count (fst wt) \<le> wdg_count (fst x)"
  then show "wdg_wf (fst (wdg_exec c x)) \<and> wdg_count (fst wt) \<le> wdg_count (fst (wdg_exec c x))"
    using wdg_exec_count_mono [of x c] by (simp add: wdg_exec_wf)
next
  fix x :: "wdg \<times> wdg_event list"
  assume "wdg_wf (fst x) \<and> wdg_count (fst wt) \<le> wdg_count (fst x)"
  then show "wdg_wf (fst (wdg_timeout_end j (fst x), snd x))
      \<and> wdg_count (fst wt) \<le> wdg_count (fst (wdg_timeout_end j (fst x), snd x))"
    using assms(2) by (simp add: wdg_writes_wf)
qed (use assms in \<open>simp_all add: wdg_writes_wf\<close>)

lemma wdg_checker_tick_wf:
  assumes "wdg_wf (fst wt)"
  shows "wdg_wf (fst (wdg_checker_tick env now wt))
       \<and> wdg_count (fst wt) \<le> wdg_count (fst (wdg_checker_tick env now wt))"
proof (rule wdg_checker_tick_rule
    [where P = "\<lambda>x :: wdg \<times> wdg_event list. wdg_wf (fst x) \<and> wdg_count (fst wt) \<le> wdg_count (fst x)"])
  fix j and x :: "wdg \<times> wdg_event list"
  assume "wdg_wf (fst x) \<and> wdg_count (fst wt) \<le> wdg_count (fst x)" and "j < wdg_count (fst x)"
  then show "wdg_wf (fst (wdg_check_entry env now j x))
      \<and> wdg_count (fst wt) \<le> wdg_count (fst (wdg_check_entry env now j x))"
    using wdg_check_entry_wf [of x j env now] by simp
qed (use assms in \<open>simp_all add: wdg_wf_def\<close>)

lemma wdg_step_wf:
  assumes "wdg_wf (fst wt)"
  shows "wdg_wf (fst (wdg_step env op wt))
       \<and> wdg_count (fst wt) \<le> wdg_count (fst (wdg_step env op wt))"
  using assms
  by (cases op) (simp_all add: wdg_exec_wf wdg_exec_count_mono wdg_checker_tick_wf)

lemma wdg_run_wf:
  assumes "wdg_wf (fst wt)"
  shows "wdg_wf (fst (wdg_run env ops wt))
       \<and> wdg_count (fst wt) \<le> wdg_count (fst (wdg_run env ops wt))"
proof (rule wdg_run_rule
    [where P = "\<lambda>x :: wdg \<times> wdg_event list. wdg_wf (fst x) \<and> wdg_count (fst wt) \<le> wdg_count (fst x)"])
  fix op and x :: "wdg \<times> wdg_event list"
  assume "wdg_wf (fst x) \<and> wdg_count (fst wt) \<le> wdg_count (fst x)"
  then show "wdg_wf (fst (wdg_step env op x))
      \<and> wdg_count (fst wt) \<le> wdg_count (fst (wdg_step env op x))"
    using wdg_step_wf [of x env op] by simp
qed (use assms in simp)

text \<open>The loop body for slot \<open>j\<close> and the entry in another slot \<open>i\<close>: if no heartbeat for
  \<open>i\<close> arrives while the mutex is released, the entry in \<open>i\<close> stays, or is deactivated by
  an unregister.\<close>

lemma wdg_check_entry_other:
  assumes wf: "wdg_wf (fst wt)" and i: "i < wdg_count (fst wt)" and j: "j < wdg_count (fst wt)"
    and ji: "j \<noteq> i"
    and d: "D (wdg_table (fst wt) ! i)"
    and nohb: "\<And>c w t. rc_slot c = j \<Longrightarrow> Heartbeat (int i) t \<notin> set (env c w)"
    and unreg: "(\<forall>c w. rc_slot c = j \<longrightarrow> Unregister (int i) \<notin> set (env c w))
                \<or> (\<forall>e. D e \<longrightarrow> D (e\<lparr>active := False\<rparr>))"
  shows "D (wdg_table (fst (wdg_check_entry env now j wt)) ! i)
       \<and> wdg_invoked_for i (snd (wdg_check_entry env now j wt)) = wdg_invoked_for i (snd wt)"
proof -
  let ?P = "\<lambda>x :: wdg \<times> wdg_event list. i < wdg_count (fst x) \<and> D (wdg_table (fst x) ! i)
      \<and> wdg_invoked_for i (snd x) = wdg_invoked_for i (snd wt)"
  have "?P (wdg_check_entry env now j wt)"
  proof (rule wdg_check_entry_rule [where P = ?P and Q = ?P])
    show "?P wt" using i d by simp
  next
    fix c and x :: "wdg \<times> wdg_event list"
    assume c: "c \<in> set (env (wdg_capture j (now - last_heartbeat (wdg_table (fst wt) ! j))
                 (wdg_table (fst wt) ! j)) (wdg_timeout_begin j (fst wt)))"
      and x: "?P x"
    from c nohb have c1: "\<forall>t. c \<noteq> Heartbeat (int i) t" by fastforce
    from x have ix: "i < wdg_count (fst x)" by simp
    from wdg_exec_entry(4) [OF ix c1] c unreg x
    have "D (wdg_table (fst (wdg_exec c x)) ! i)" by fastforce
    with x wdg_exec_count_mono [of x c] show "?P (wdg_exec c x)" by simp
  qed (use i d ji in simp_all)
  then show ?thesis by simp
qed

lemma wdg_check_entry_untouched:
  assumes "wdg_untouched now (wdg_table (fst wt) ! i)"
  shows "wdg_check_entry env now i wt = wt"
  using assms by (auto simp: wdg_check_entry_def wdg_untouched_def Let_def split: if_splits)

text \<open>A pass of the checker and one slot \<open>i\<close>, when the calls made while the mutex is
  released for other slots leave slot \<open>i\<close> alone: what the loop body for \<open>i\<close> makes of
  the entry, as it is when the pass starts, is what the pass makes of it.\<close>

lemma wdg_tick_phases:
  assumes wf: "wdg_wf (fst wt)" and i: "i < wdg_count (fst wt)" and en: "wdg_enabled (fst wt)"
    and nohb: "\<And>c w t. rc_slot c \<noteq> i \<Longrightarrow> Heartbeat (int i) t \<notin> set (env c w)"
    and nounreg: "\<And>c w. rc_slot c \<noteq> i \<Longrightarrow> Unregister (int i) \<notin> set (env c w)"
    and step: "\<And>x. \<lbrakk>wdg_wf (fst x); i < wdg_count (fst x);
                    wdg_table (fst x) ! i = wdg_table (fst wt) ! i;
                    wdg_invoked_for i (snd x) = wdg_invoked_for i (snd wt)\<rbrakk>
               \<Longrightarrow> Post (wdg_table (fst (wdg_check_entry env now i x)) ! i)
                        (wdg_invoked_for i (snd (wdg_check_entry env now i x)))"
  shows "Post (wdg_table (fst (wdg_checker_tick env now wt)) ! i)
              (wdg_invoked_for i (snd (wdg_checker_tick env now wt)))"
proof -
  let ?E = "wdg_table (fst wt) ! i" and ?L = "wdg_invoked_for i (snd wt)"
  let ?wt0 = "((fst wt)\<lparr>wdg_stats := (wdg_stats (fst wt))\<lparr>checks_performed :=
                   checks_performed (wdg_stats (fst wt)) + 1\<rparr>\<rparr>, snd wt)"
  let ?P = "\<lambda>j (x :: wdg \<times> wdg_event list). wdg_wf (fst x) \<and> i < wdg_count (fst x)
      \<and> (if j \<le> i then wdg_table (fst x) ! i = ?E \<and> wdg_invoked_for i (snd x) = ?L
          else Post (wdg_table (fst x) ! i) (wdg_invoked_for i (snd x)))"
  let ?R = "\<lambda>x :: wdg \<times> wdg_event list. Post (wdg_table (fst x) ! i) (wdg_invoked_for i (snd x))"
  have "?R (wdg_check_loop env now 0 ?wt0)"
  proof (rule wdg_check_loop_rule [where P = ?P and R = ?R])
    show "?P 0 ?wt0" using wf i by (simp add: wdg_wf_def)
  next
    fix j and x :: "wdg \<times> wdg_event list"
    assume p: "?P j x" and j: "j < wdg_count (fst x)"
    from p have wfx: "wdg_wf (fst x)" and ix: "i < wdg_count (fst x)" by simp_all
    from wdg_check_entry_wf [OF wfx j, of env now] ix
    have wf': "wdg_wf (fst (wdg_check_entry env now j x))"
      and i': "i < wdg_count (fst (wdg_check_entry env now j x))" by simp_all
    consider (before) "j < i" | (at) "j = i" | (after) "i < j" by linarith
    then show "?P (Suc j) (wdg_check_entry env now j x)"
    proof cases
      case before
      with p have e: "wdg_table (fst x) ! i = ?E" and l: "wdg_invoked_for i (snd x) = ?L"
        by simp_all
      from before have ji: "j \<noteq> i" by simp
      from wdg_check_entry_other [where D = "\<lambda>e. e = ?E", OF wfx ix j ji e, of env now]
        nohb nounreg ji
      have "wdg_table (fst (wdg_check_entry env now j x)) ! i = ?E
          \<and> wdg_invoked_for i (snd (wdg_check_entry env now j x)) = wdg_invoked_for i (snd x)"
        by blast
      with before wf' i' l show ?thesis by simp
    next
      case at
      with p have e: "wdg_table (fst x) ! i = ?E" and l: "wdg_invoked_for i (snd x) = ?L"
        by simp_all
      from step [OF wfx ix e l] at wf' i' show ?thesis by simp
    next
      case after
      with p have post: "Post (wdg_table (fst x) ! i) (wdg_invoked_for i (snd x))" by simp
      from after have ji: "j \<noteq> i" by simp
      from wdg_check_entry_other [where D = "\<lambda>e. e = wdg_table (fst x) ! i",
          OF wfx ix j ji refl, of env now] nohb nounreg ji
      have "wdg_table (fst (wdg_check_entry env now j x)) ! i = wdg_table (fst x) ! i
          \<and> wdg_invoked_for i (snd (wdg_check_entry env now j x)) = wdg_invoked_for i (snd x)"
        by blast
      with after wf' i' post show ?thesis by simp
    qed
  next
    fix j and x :: "wdg \<times> wdg_event list"
    assume "?P j x" and "\<not> j < wdg_count (fst x)"
    then show "?R x" by (auto split: if_splits)
  qed
  with en show ?thesis by (simp add: wdg_checker_tick_def)
qed

text \<open>A property of the entry in slot \<open>i\<close> that an unregister does not destroy and that
  keeps the checker from writing to the entry stays true through all calls and passes
  that bring no heartbeat for slot \<open>i\<close>, and no recovery action is invoked for \<open>i\<close>.\<close>

lemma wdg_tick_frame:
  assumes wf: "wdg_wf (fst wt)" and i: "i < wdg_count (fst wt)"
    and d: "D (wdg_table (fst wt) ! i)"
    and closed: "\<And>e. D e \<Longrightarrow> D (e\<lparr>active := False\<rparr>)"
    and quiet: "\<And>e. D e \<Longrightarrow> wdg_untouched now e"
    and nohb: "\<And>c w t. rc_slot c \<noteq> i \<Longrightarrow> Heartbeat (int i) t \<notin> set (env c w)"
  shows "wdg_wf (fst (wdg_checker_tick env now wt))
       \<and> i < wdg_count (fst (wdg_checker_tick env now wt))
       \<and> D (wdg_table (fst (wdg_checker_tick env now wt)) ! i)
       \<and> wdg_invoked_for i (snd (wdg_checker_tick env now wt)) = wdg_invoked_for i (snd wt)"
proof -
  let ?P = "\<lambda>x :: wdg \<times> wdg_event list. wdg_wf (fst x) \<and> i < wdg_count (fst x)
      \<and> D (wdg_table (fst x) ! i) \<and> wdg_invoked_for i (snd x) = wdg_invoked_for i (snd wt)"
  show ?thesis
  proof (rule wdg_checker_tick_rule [where P = ?P])
    show "?P wt" using wf i d by simp
  next
    show "?P ((fst wt)\<lparr>wdg_stats := (wdg_stats (fst wt))\<lparr>checks_performed :=
                   checks_performed (wdg_stats (fst wt)) + 1\<rparr>\<rparr>, snd wt)"
      using wf i d by (simp add: wdg_wf_def)
  next
    fix j and x :: "wdg \<times> wdg_event list"
    assume p: "?P x" and j: "j < wdg_count (fst x)"
    from p have wfx: "wdg_wf (fst x)" and ix: "i < wdg_count (fst x)"
      and dx: "D (wdg_table (fst x) ! i)" by simp_all
    show "?P (wdg_check_entry env now j x)"
    proof (cases "j = i")
      case True
      with quiet [OF dx] have "wdg_check_entry env now j x = x"
        by (simp add: wdg_check_entry_untouched)
      with p show ?thesis by simp
    next
      case False
      from wdg_check_entry_wf [OF wfx j, of env now] ix
      have "wdg_wf (fst (wdg_check_entry env now j x))"
        and "i < wdg_count (fst (wdg_check_entry env now j x))" by simp_all
      moreover from wdg_check_entry_other [where D = D, OF wfx ix j False dx, of env now]
        nohb closed False
      have "D (wdg_table (fst (wdg_check_entry env now j x)) ! i)
          \<and> wdg_invoked_for i (snd (wdg_check_entry env now j x)) = wdg_invoked_for i (snd x)"
        by blast
      ultimately show ?thesis using p by simp
    qed
  qed
qed

lemma wdg_run_frame:
  assumes wf: "wdg_wf (fst wt)" and i: "i < wdg_count (fst wt)"
    and d: "D (wdg_table (fst wt) ! i)"
    and closed: "\<And>e. D e \<Longrightarrow> D (e\<lparr>active := False\<rparr>)"
    and quiet: "\<And>t e. Checker_tick t \<in> set ops \<Longrightarrow> D e \<Longrightarrow> wdg_untouched t e"
    and ops: "\<And>t. Call (Heartbeat (int i) t) \<notin> set ops"
    and nohb: "\<And>c w t. rc_slot c \<noteq> i \<Longrightarrow> Heartbeat (int i) t \<notin> set (env c w)"
  shows "wdg_wf (fst (wdg_run env ops wt))
       \<and> i < wdg_count (fst (wdg_run env ops wt))
       \<and> D (wdg_table (fst (wdg_run env ops wt)) ! i)
       \<and> wdg_invoked_for i (snd (wdg_run env ops wt)) = wdg_invoked_for i (snd wt)"
proof -
  let ?P = "\<lambda>x :: wdg \<times> wdg_event list. wdg_wf (fst x) \<and> i < wdg_count (fst x)
      \<and> D (wdg_table (fst x) ! i) \<and> wdg_invoked_for i (snd x) = wdg_invoked_for i (snd wt)"
  show ?thesis
  proof (rule wdg_run_rule [where P = ?P])
    show "?P wt" using wf i d by simp
  next
    fix op and x :: "wdg \<times> wdg_event list"
    assume op: "op \<in> set ops" and p: "?P x"
    from p have wfx: "wdg_wf (fst x)" and ix: "i < wdg_count (fst x)"
      and dx: "D (wdg_table (fst x) ! i)" by simp_all
    show "?P (wdg_step env op x)"
    proof (cases op)
      case (Call c)
      with op ops have c1: "\<forall>t. c \<noteq> Heartbeat (int i) t" by auto
      from wdg_exec_entry(4) [OF ix c1] dx closed
      have "D (wdg_table (fst (wdg_exec c x)) ! i)" by auto
      with Call p wdg_exec_count_mono [of x c] wdg_exec_wf [OF wfx, of c] show ?thesis
        by simp
    next
      case (Checker_tick t)
      with op quiet have q: "\<And>e. D e \<Longrightarrow> wdg_untouched t e" by blast
      from wdg_tick_frame [where D = D and env = env, OF wfx ix dx closed q nohb] Checker_tick p
      show ?thesis by simp
    qed
  qed
qed

text \<open>The loop body for a slot whose entry has timed out, whatever is called while the
  mutex is released.\<close>

lemma wdg_check_entry_timeout:
  fixes wt :: "wdg \<times> wdg_event list" and i :: nat and now :: int
  defines "e \<equiv> wdg_table (fst wt) ! i"
  defines "call \<equiv> wdg_capture i (now - last_heartbeat e) e"
  defines "w1 \<equiv> wdg_timeout_begin i (fst wt)"
  assumes wf: "wdg_wf (fst wt)" and i: "i < wdg_count (fst wt)"
    and act: "active e"
    and late: "uint (timeout_ms e) < now - last_heartbeat e"
    and st: "state e \<noteq> WDG_STATE_UNRESPONSIVE" "state e \<noteq> WDG_STATE_RECOVERED"
  shows "wdg_check_entry env now i wt
           = (wdg_timeout_end i (fst (wdg_exec_all (env call w1) (w1, snd wt @ [Invoked call]))),
              snd (wdg_exec_all (env call w1) (w1, snd wt @ [Invoked call])))"
    and "state (wdg_table (fst (wdg_check_entry env now i wt)) ! i) = WDG_STATE_RECOVERED"
    and "timeout_count (wdg_table (fst (wdg_check_entry env now i wt)) ! i) = timeout_count e + 1"
    and "recovery_count (wdg_table (fst (wdg_check_entry env now i wt)) ! i) = recovery_count e + 1"
    and "wdg_entry_ident (wdg_table (fst (wdg_check_entry env now i wt)) ! i) = wdg_entry_ident e"
    and "total_timeouts (wdg_stats (fst (wdg_check_entry env now i wt)))
           = total_timeouts (wdg_stats (fst wt)) + 1"
    and "total_recoveries (wdg_stats (fst (wdg_check_entry env now i wt)))
           = total_recoveries (wdg_stats (fst wt)) + 1"
    and "wdg_invoked (snd (wdg_check_entry env now i wt)) = wdg_invoked (snd wt) @ [call]"
proof -
  let ?X = "wdg_exec_all (env call w1) (w1, snd wt @ [Invoked call])"
  let ?Q = "\<lambda>x :: wdg \<times> wdg_event list. wdg_wf (fst x) \<and> i < wdg_count (fst x)
      \<and> timeout_count (wdg_table (fst x) ! i) = timeout_count e + 1
      \<and> recovery_count (wdg_table (fst x) ! i) = recovery_count e
      \<and> wdg_entry_ident (wdg_table (fst x) ! i) = wdg_entry_ident e
      \<and> total_timeouts (wdg_stats (fst x)) = total_timeouts (wdg_stats (fst wt)) + 1
      \<and> total_recoveries (wdg_stats (fst x)) = total_recoveries (wdg_stats (fst wt))
      \<and> wdg_invoked (snd x) = wdg_invoked (snd wt) @ [call]"
  from wf i have len: "i < length (wdg_table (fst wt))" by (simp add: wdg_wf_def)
  show eq: "wdg_check_entry env now i wt = (wdg_timeout_end i (fst ?X), snd ?X)"
    using act late st by (simp add: wdg_check_entry_def Let_def e_def call_def w1_def)
  have "?Q ?X"
  proof (rule wdg_exec_all_rule [where P = ?Q])
    show "?Q (w1, snd wt @ [Invoked call])"
      using wf i len
      by (simp add: w1_def wdg_writes_wf)
         (simp add: wdg_timeout_begin_def wdg_mark_unresponsive_def wdg_entry_ident_def e_def)
  next
    fix c and x :: "wdg \<times> wdg_event list"
    assume q: "?Q x"
    then have ix: "i < wdg_count (fst x)" and wfx: "wdg_wf (fst x)" by simp_all
    from q wdg_exec_entry(1-3) [OF ix, of c] wdg_exec_totals [of c x]
      wdg_exec_count_mono [of x c] wdg_exec_wf [OF wfx, of c]
    show "?Q (wdg_exec c x)" by simp
  qed
  moreover from this have "i < length (wdg_table (fst ?X))" by (simp add: wdg_wf_def)
  ultimately show
    "state (wdg_table (fst (wdg_check_entry env now i wt)) ! i) = WDG_STATE_RECOVERED"
    "timeout_count (wdg_table (fst (wdg_check_entry env now i wt)) ! i) = timeout_count e + 1"
    "recovery_count (wdg_table (fst (wdg_check_entry env now i wt)) ! i) = recovery_count e + 1"
    "wdg_entry_ident (wdg_table (fst (wdg_check_entry env now i wt)) ! i) = wdg_entry_ident e"
    "total_timeouts (wdg_stats (fst (wdg_check_entry env now i wt)))
           = total_timeouts (wdg_stats (fst wt)) + 1"
    "total_recoveries (wdg_stats (fst (wdg_check_entry env now i wt)))
           = total_recoveries (wdg_stats (fst wt)) + 1"
    "wdg_invoked (snd (wdg_check_entry env now i wt)) = wdg_invoked (snd wt) @ [call]"
    unfolding eq
    by (simp_all add: wdg_timeout_end_def wdg_mark_recovered_def wdg_entry_ident_def)
qed

lemma wdg_invoked_for_own:
  "wdg_invoked tr' = wdg_invoked tr @ [c] \<Longrightarrow> rc_slot c = i \<Longrightarrow>
     wdg_invoked_for i tr' = wdg_invoked_for i tr @ [c]"
  by (simp add: wdg_invoked_for_def)

lemma wdg_entry_deactivated:
  "e'\<lparr>active := False\<rparr> = e\<lparr>active := False\<rparr> \<Longrightarrow>
     state e' = state e \<and> timeout_count e' = timeout_count e
     \<and> recovery_count e' = recovery_count e \<and> heartbeat_count e' = heartbeat_count e
     \<and> last_heartbeat e' = last_heartbeat e \<and> name e' = name e
     \<and> timeout_ms e' = timeout_ms e \<and> recovery_cb e' = recovery_cb e"
  by (cases e; cases e') simp

text \<open>The warning threshold \<open>timeout_ms * 3 / 4\<close> in \<open>uint32_t\<close>: never above three
  quarters of the timeout, and equal to it (rounded down) unless \<open>timeout_ms * 3\<close> wraps.\<close>

lemma wdg_warn_threshold:
  fixes T :: "32 word"
  shows "uint (T * 3 div 4) \<le> 3 * uint T div 4"
    and "3 * uint T < 2 ^ 32 \<Longrightarrow> uint (T * 3 div 4) = 3 * uint T div 4"
    and "uint (T * 3 div 4) \<le> uint T"
proof -
  have m: "uint (T * 3) = (uint T * 3) mod 2 ^ 32"
    by (simp add: uint_word_ariths)
  have d: "uint (T * 3 div 4) = uint (T * 3) div 4"
    by (simp add: uint_div)
  have "(uint T * 3) mod 2 ^ 32 \<le> uint T * 3"
    by (rule zmod_le_nonneg_dividend) simp
  then show le: "uint (T * 3 div 4) \<le> 3 * uint T div 4"
    unfolding d m by (simp add: mult.commute zdiv_mono1)
  show "uint (T * 3 div 4) = 3 * uint T div 4" if "3 * uint T < 2 ^ 32"
    unfolding d m using that by (simp add: mult.commute)
  have "0 \<le> uint T" by simp
  then have "3 * uint T div 4 \<le> uint T" by linarith
  with le show "uint (T * 3 div 4) \<le> uint T" by linarith
qed

lemma wdg_check_entry_warn:
  assumes "active (wdg_table (fst wt) ! i)"
    and "state (wdg_table (fst wt) ! i) = WDG_STATE_HEALTHY"
    and "\<not> uint (timeout_ms (wdg_table (fst wt) ! i)) < now - last_heartbeat (wdg_table (fst wt) ! i)"
    and "uint (timeout_ms (wdg_table (fst wt) ! i) * 3 div 4)
           < now - last_heartbeat (wdg_table (fst wt) ! i)"
  shows "wdg_check_entry env now i wt = (wdg_warn i (fst wt), snd wt)"
  using assms by (simp add: wdg_check_entry_def Let_def)

lemma wdg_untouched_settled:
  "state e = WDG_STATE_RECOVERED \<or> state e = WDG_STATE_UNRESPONSIVE \<Longrightarrow> wdg_untouched t e"
  by (auto simp: wdg_untouched_def)

section \<open>Evaluation, and facts about slots, sums and repeated heartbeats\<close>

lemmas wdg_eval = wdg_register_def wdg_heartbeat_def wdg_unregister_def wdg_enable_def
  wdg_get_state_def wdg_checker_tick_def wdg_check_loop.simps wdg_check_entry_def
  wdg_timeout_begin_def wdg_timeout_end_def wdg_warn_def wdg_capture_def
  wdg_mark_unresponsive_def wdg_mark_recovered_def wdg_recovery_action_def
  wdg_init_def zero_entry_def WDG_MAX_THREADS_def wdg_no_calls_def Let_def

lemma wdg_run_append:
  "wdg_run env (a @ b) wt = wdg_run env b (wdg_run env a wt)"
  by (induction a arbitrary: wt) simp_all

text \<open>\<open>n\<close> more heartbeats, at the same uptime, of a thread that is Healthy.\<close>

lemma wdg_heartbeats:
  assumes "0 \<le> slot" and "slot < int WDG_MAX_THREADS"
    and "nat slot < length (wdg_table w)"
    and "active (wdg_table w ! nat slot)"
    and "last_heartbeat (wdg_table w ! nat slot) = t"
    and "state (wdg_table w ! nat slot) = WDG_STATE_HEALTHY"
  shows "wdg_run env (replicate n (Call (Heartbeat slot t))) (w, tr)
     = (w\<lparr>wdg_table := (wdg_table w)[nat slot := (wdg_table w ! nat slot)\<lparr>heartbeat_count :=
            heartbeat_count (wdg_table w ! nat slot) + of_nat n\<rparr>],
          wdg_stats := (wdg_stats w)\<lparr>total_heartbeats :=
            total_heartbeats (wdg_stats w) + of_nat n\<rparr>\<rparr>, tr)"
  using assms
proof (induction n arbitrary: w)
  case 0
  then show ?case by simp
next
  case (Suc n)
  let ?e = "wdg_table w ! nat slot"
  let ?w1 = "w\<lparr>wdg_table := (wdg_table w)[nat slot := ?e\<lparr>heartbeat_count :=
            heartbeat_count ?e + 1\<rparr>],
          wdg_stats := (wdg_stats w)\<lparr>total_heartbeats := total_heartbeats (wdg_stats w) + 1\<rparr>\<rparr>"
  have rec: "?e\<lparr>last_heartbeat := t, state := WDG_STATE_HEALTHY,
          heartbeat_count := heartbeat_count ?e + 1\<rparr> = ?e\<lparr>heartbeat_count := heartbeat_count ?e + 1\<rparr>"
    using Suc.prems(5,6) by (cases ?e) simp
  have one: "wdg_heartbeat slot t w = ?w1"
    using Suc.prems(1,2,4) by (simp add: wdg_heartbeat_def Let_def rec)
  have "wdg_run env (replicate n (Call (Heartbeat slot t))) (?w1, tr)
     = (?w1\<lparr>wdg_table := (wdg_table ?w1)[nat slot := (wdg_table ?w1 ! nat slot)\<lparr>heartbeat_count :=
            heartbeat_count (wdg_table ?w1 ! nat slot) + of_nat n\<rparr>],
          wdg_stats := (wdg_stats ?w1)\<lparr>total_heartbeats :=
            total_heartbeats (wdg_stats ?w1) + of_nat n\<rparr>\<rparr>, tr)"
    by (rule Suc.IH) (use Suc.prems in simp_all)
  with Suc.prems(3) show ?case by (simp add: one algebra_simps)
qed

lemma wdg_writes_ident [simp]:
  "wdg_entry_ident (wdg_table (wdg_timeout_begin j w) ! s) = wdg_entry_ident (wdg_table w ! s)"
  "wdg_entry_ident (wdg_table (wdg_timeout_end j w) ! s) = wdg_entry_ident (wdg_table w ! s)"
  "wdg_entry_ident (wdg_table (wdg_warn j w) ! s) = wdg_entry_ident (wdg_table w ! s)"
proof -
  have nth: "(xs[j := v]) ! s = (if j = s \<and> s < length xs then v else xs ! s)"
    for xs :: "wdg_entry list" and v
    by (cases "j = s") (auto simp: list_update_beyond not_less)
  show "wdg_entry_ident (wdg_table (wdg_timeout_begin j w) ! s) = wdg_entry_ident (wdg_table w ! s)"
    "wdg_entry_ident (wdg_table (wdg_timeout_end j w) ! s) = wdg_entry_ident (wdg_table w ! s)"
    "wdg_entry_ident (wdg_table (wdg_warn j w) ! s) = wdg_entry_ident (wdg_table w ! s)"
    by (simp_all add: wdg_timeout_begin_def wdg_timeout_end_def wdg_warn_def nth
          wdg_entry_ident_def wdg_mark_unresponsive_def wdg_mark_recovered_def)
qed

lemma wdg_run_identity:
  assumes wf: "wdg_wf (fst wt)" and s: "s < wdg_count (fst wt)"
  shows "wdg_entry_ident (wdg_table (fst (wdg_run env ops wt)) ! s)
       = wdg_entry_ident (wdg_table (fst wt) ! s)"
proof -
  let ?P = "\<lambda>x :: wdg \<times> wdg_event list. s < wdg_count (fst x)
      \<and> wdg_entry_ident (wdg_table (fst x) ! s) = wdg_entry_ident (wdg_table (fst wt) ! s)"
  have ex: "?P (wdg_exec c x)" if "?P x" for c x
    using that wdg_exec_entry(3) [of s x c] wdg_exec_count_mono [of x c] by simp
  have "?P (wdg_run env ops wt)"
  proof (rule wdg_run_rule [where P = ?P])
    show "?P wt" using s by simp
  next
    fix op and x :: "wdg \<times> wdg_event list"
    assume p: "?P x"
    show "?P (wdg_step env op x)"
    proof (cases op)
      case (Call c)
      with ex [OF p] show ?thesis by simp
    next
      case (Checker_tick now)
      have "?P (wdg_checker_tick env now x)"
      proof (rule wdg_checker_tick_rule [where P = ?P])
        fix j and y :: "wdg \<times> wdg_event list"
        assume py: "?P y"
        show "?P (wdg_check_entry env now j y)"
          by (rule wdg_check_entry_rule [where P = ?P and Q = ?P])
             (use py ex in simp_all)
      qed (use p in simp_all)
      with Checker_tick show ?thesis by simp
    qed
  qed
  then show ?thesis by simp
qed

lemma wdg_run_slots:
  assumes "sorted_wrt (<) (wdg_slots (snd wt))"
    and "\<forall>s\<in>set (wdg_slots (snd wt)). s < int (wdg_count (fst wt))"
  shows "sorted_wrt (<) (wdg_slots (snd (wdg_run env ops wt)))
       \<and> (\<forall>s\<in>set (wdg_slots (snd (wdg_run env ops wt))).
             s < int (wdg_count (fst (wdg_run env ops wt))))
       \<and> (\<exists>new. wdg_slots (snd (wdg_run env ops wt)) = wdg_slots (snd wt) @ new
             \<and> (\<forall>s\<in>set new. int (wdg_count (fst wt)) \<le> s))"
proof -
  let ?P = "\<lambda>x :: wdg \<times> wdg_event list. sorted_wrt (<) (wdg_slots (snd x))
      \<and> (\<forall>s\<in>set (wdg_slots (snd x)). s < int (wdg_count (fst x)))
      \<and> wdg_count (fst wt) \<le> wdg_count (fst x)
      \<and> (\<exists>new. wdg_slots (snd x) = wdg_slots (snd wt) @ new
             \<and> (\<forall>s\<in>set new. int (wdg_count (fst wt)) \<le> s))"
  have ex: "?P (wdg_exec c x)" if p: "?P x" for c x
  proof (cases x)
    case (Pair v tr)
    show ?thesis
    proof (cases c)
      case (Register nm tmo cb now)
      show ?thesis
      proof (cases "wdg_count v < WDG_MAX_THREADS")
        case True
        from p Pair obtain new where new: "wdg_slots tr = wdg_slots (snd wt) @ new"
          "\<forall>s\<in>set new. int (wdg_count (fst wt)) \<le> s" by auto
        have "wdg_slots tr @ [int (wdg_count v)]
            = wdg_slots (snd wt) @ (new @ [int (wdg_count v)])"
          using new(1) by simp
        moreover have "\<forall>s\<in>set (new @ [int (wdg_count v)]). int (wdg_count (fst wt)) \<le> s"
          using new(2) p Pair by auto
        ultimately have "\<exists>n. wdg_slots tr @ [int (wdg_count v)] = wdg_slots (snd wt) @ n
            \<and> (\<forall>s\<in>set n. int (wdg_count (fst wt)) \<le> s)" by blast
        with p Pair Register True show ?thesis
          by (auto simp: wdg_register_ok sorted_wrt_append)
      next
        case False
        with p Pair Register show ?thesis by (simp add: wdg_register_def)
      qed
    qed (use p Pair in \<open>simp_all add: wdg_heartbeat_def wdg_unregister_def wdg_enable_def Let_def\<close>)
  qed
  have "?P (wdg_run env ops wt)"
  proof (rule wdg_run_rule [where P = ?P])
    show "?P wt" using assms by simp
  next
    fix op and x :: "wdg \<times> wdg_event list"
    assume p: "?P x"
    show "?P (wdg_step env op x)"
    proof (cases op)
      case (Call c)
      with ex [OF p] show ?thesis by simp
    next
      case (Checker_tick now)
      have "?P (wdg_checker_tick env now x)"
      proof (rule wdg_checker_tick_rule [where P = ?P])
        fix j and y :: "wdg \<times> wdg_event list"
        assume py: "?P y"
        show "?P (wdg_check_entry env now j y)"
          by (rule wdg_check_entry_rule [where P = ?P and Q = ?P])
             (use py ex in simp_all)
      qed (use p in simp_all)
      with Checker_tick show ?thesis by simp
    qed
  qed
  then show ?thesis by simp
qed

lemma wdg_unregister_frame:
  "(wdg_table (wdg_unregister slot w) ! j)\<lparr>active := False\<rparr> = (wdg_table w ! j)\<lparr>active := False\<rparr>
   \<and> (j \<noteq> nat slot \<longrightarrow> wdg_table (wdg_unregister slot w) ! j = wdg_table w ! j)
   \<and> length (wdg_table (wdg_unregister slot w)) = length (wdg_table w)
   \<and> wdg_count (wdg_unregister slot w) = wdg_count w
   \<and> wdg_enabled (wdg_unregister slot w) = wdg_enabled w
   \<and> wdg_stats (wdg_unregister slot w) = wdg_stats w"
proof (cases "nat slot < length (wdg_table w)")
  case True
  then show ?thesis
    by (cases "nat slot = j") (auto simp: wdg_unregister_def Let_def)
next
  case False
  then have "(wdg_table w)[nat slot := x] = wdg_table w" for x
    by (simp add: list_update_beyond)
  then show ?thesis by (simp add: wdg_unregister_def Let_def)
qed

lemma wdg_unregister_clears:
  assumes "0 \<le> slot" and "slot < int WDG_MAX_THREADS"
    and "length (wdg_table w) = WDG_MAX_THREADS"
  shows "\<not> active (wdg_table (wdg_unregister slot w) ! nat slot)"
proof -
  from assms have "nat slot < length (wdg_table w)" by (simp add: nat_less_iff)
  with assms show ?thesis by (simp add: wdg_unregister_def Let_def)
qed

lemma sum_list_map_update:
  fixes f :: "'a \<Rightarrow> 'b::ab_group_add"
  assumes "i < length xs"
  shows "sum_list (map f (xs[i := x])) = sum_list (map f xs) - f (xs ! i) + f x"
  using assms
proof (induction xs arbitrary: i)
  case Nil
  then show ?case by simp
next
  case (Cons y ys)
  then show ?case by (cases i) (simp_all add: algebra_simps)
qed

lemma wdg_exec_sums:
  assumes wf: "wdg_wf (fst wt)" and sums: "wdg_sums (fst wt)"
  shows "wdg_sums (fst (wdg_exec c wt))"
proof -
  obtain w tr where wt: "wt = (w, tr)" by (cases wt)
  from wf sums wt have wfw: "wdg_wf w" and sw: "wdg_sums w" by simp_all
  have "wdg_sums (fst (wdg_exec c (w, tr)))"
  proof (cases c)
    case (Register nm tmo cb now)
    show ?thesis
    proof (cases "WDG_MAX_THREADS \<le> wdg_count w")
      case True
      with Register sw show ?thesis by (simp add: wdg_register_def)
    next
      case False
      with wfw have "wdg_table w ! wdg_count w = zero_entry" "wdg_count w < length (wdg_table w)"
        by (simp_all add: wdg_wf_iff)
      with False Register sw show ?thesis
        by (simp add: wdg_register_def Let_def wdg_sums_def sum_list_map_update zero_entry_def)
    qed
  next
    case (Heartbeat slot now)
    show ?thesis
    proof (cases "0 \<le> slot \<and> slot < int WDG_MAX_THREADS")
      case True
      with wfw have "nat slot < length (wdg_table w)" by (simp add: wdg_wf_def nat_less_iff)
      with Heartbeat sw show ?thesis
        by (simp add: wdg_heartbeat_def Let_def wdg_sums_def sum_list_map_update)
    next
      case False
      with Heartbeat sw show ?thesis by (auto simp: wdg_heartbeat_def)
    qed
  next
    case (Unregister slot)
    show ?thesis
    proof (cases "0 \<le> slot \<and> slot < int WDG_MAX_THREADS")
      case True
      with wfw have "nat slot < length (wdg_table w)" by (simp add: wdg_wf_def nat_less_iff)
      with Unregister sw show ?thesis
        by (simp add: wdg_unregister_def Let_def wdg_sums_def sum_list_map_update)
    next
      case False
      with Unregister sw show ?thesis by (auto simp: wdg_unregister_def)
    qed
  qed (use sw in \<open>simp_all add: wdg_sums_def wdg_enable_def\<close>)
  then show ?thesis by (simp add: wt)
qed

lemma wdg_writes_sums:
  assumes "wdg_sums w" and "j < length (wdg_table w)"
  shows "wdg_sums (wdg_timeout_begin j w)" and "wdg_sums (wdg_timeout_end j w)"
    and "wdg_sums (wdg_warn j w)"
  using assms
  by (simp_all add: wdg_sums_def wdg_timeout_begin_def wdg_timeout_end_def wdg_warn_def
        wdg_mark_unresponsive_def wdg_mark_recovered_def sum_list_map_update)

lemma wdg_run_sums:
  assumes wf: "wdg_wf (fst wt)" and sums: "wdg_sums (fst wt)"
  shows "wdg_wf (fst (wdg_run env ops wt)) \<and> wdg_sums (fst (wdg_run env ops wt))"
proof -
  let ?P = "\<lambda>x :: wdg \<times> wdg_event list. wdg_wf (fst x) \<and> wdg_sums (fst x)"
  have ex: "?P (wdg_exec c x)" if "?P x" for c x
    using that by (simp add: wdg_exec_wf wdg_exec_sums)
  show ?thesis
  proof (rule wdg_run_rule [where P = ?P])
    show "?P wt" using assms by simp
  next
    fix op and x :: "wdg \<times> wdg_event list"
    assume p: "?P x"
    show "?P (wdg_step env op x)"
    proof (cases op)
      case (Call c)
      with ex [OF p] show ?thesis by simp
    next
      case (Checker_tick now)
      have "?P (wdg_checker_tick env now x)"
      proof (rule wdg_checker_tick_rule [where P = ?P])
        fix j and y :: "wdg \<times> wdg_event list"
        assume py: "?P y" and j: "j < wdg_count (fst y)"
        let ?Q = "\<lambda>x :: wdg \<times> wdg_event list. wdg_wf (fst x) \<and> wdg_sums (fst x)
            \<and> j < wdg_count (fst x)"
        have len: "j < length (wdg_table (fst z))" if "?Q z" for z
          using that by (simp add: wdg_wf_def)
        show "?P (wdg_check_entry env now j y)"
        proof (rule wdg_check_entry_rule [where P = ?P and Q = ?Q])
          fix c and z :: "wdg \<times> wdg_event list"
          assume "?Q z"
          with wdg_exec_count_mono [of z c] show "?Q (wdg_exec c z)"
            by (simp add: wdg_exec_wf wdg_exec_sums)
        next
          fix z :: "wdg \<times> wdg_event list"
          assume q: "?Q z"
          with len [OF q] show "?P (wdg_timeout_end j (fst z), snd z)"
            by (simp add: wdg_writes_wf wdg_writes_sums)
        qed (use py j len [of y] in \<open>simp_all add: wdg_writes_wf wdg_writes_sums\<close>)
      qed (use p in \<open>simp_all add: wdg_wf_def wdg_sums_def\<close>)
      with Checker_tick show ?thesis by simp
    qed
  qed
qed

lemma wdg_init_inv:
  "wdg_wf wdg_init \<and> wdg_sums wdg_init"
  by (simp add: wdg_wf_def wdg_sums_def wdg_init_def zero_entry_def sum_list_replicate)

lemma unat_sum_list_word:
  fixes f :: "'a \<Rightarrow> 32 word"
  shows "unat (sum_list (map f xs)) = sum_list (map (unat \<circ> f) xs) mod 2 ^ 32"
  by (induction xs) (simp_all add: unat_word_ariths mod_add_right_eq)

section \<open>One recovery action for each timeout episode\<close>

text \<open>
  C1. Let the checker, at uptime \<open>now\<close>, come to a slot \<open>i\<close> below \<open>wdg_count\<close> whose
  entry is active, neither Unresponsive nor Recovered, with more than its \<open>timeout_ms\<close>
  elapsed since its last heartbeat. Whatever is called while the mutex is released:
  \<^item> the loop body invokes exactly one recovery action, the callback of the entry if it
    has one and the default action if it has none, with the name of the entry and the
    elapsed time in \<open>uint32_t\<close>;
  \<^item> when the loop body is done the entry is Recovered, its \<open>timeout_count\<close> and
    \<open>recovery_count\<close> are one more than before, and \<open>total_timeouts\<close> and
    \<open>total_recoveries\<close> are one more than before (all in \<open>uint32_t\<close>).

  The same is true of the whole pass and the entry as it is when the pass starts, when
  the watchdog is enabled and no call made while the mutex is released for another slot
  is a heartbeat or an unregister for slot \<open>i\<close>: exactly one recovery action is
  invoked for slot \<open>i\<close>.

  Afterwards, through every run of calls and passes that brings no heartbeat for slot
  \<open>i\<close>, no further recovery action is invoked for slot \<open>i\<close>, the entry stays
  Recovered with the same \<open>timeout_count\<close> and \<open>recovery_count\<close>, and the loop body
  for slot \<open>i\<close> of every later pass changes nothing at all, neither the table nor an
  aggregate nor the record.
\<close>

theorem wdg_recovery_once:
  fixes w :: wdg and tr :: "wdg_event list" and env :: wdg_window
    and x :: "wdg \<times> wdg_event list" and i :: nat and now :: int
  defines "e \<equiv> wdg_table w ! i"
  defines "call \<equiv> \<lparr>rc_slot = i,
      rc_action = (case recovery_cb e of None \<Rightarrow> Default_recovery | Some f \<Rightarrow> Callback f),
      rc_name = name e, rc_elapsed = word_of_int (now - last_heartbeat e)\<rparr>"
  defines "body \<equiv> wdg_check_entry env now i (w, tr)"
  defines "pass \<equiv> wdg_checker_tick env now (w, tr)"
  defines "alone \<equiv> (\<forall>c w' t. rc_slot c \<noteq> i \<longrightarrow> Heartbeat (int i) t \<notin> set (env c w'))"
  defines "kept \<equiv> (\<forall>c w'. rc_slot c \<noteq> i \<longrightarrow> Unregister (int i) \<notin> set (env c w'))"
  assumes wf: "wdg_wf w" and i: "i < wdg_count w"
    and act: "active e"
    and late: "uint (timeout_ms e) < now - last_heartbeat e"
    and st: "state e \<noteq> WDG_STATE_UNRESPONSIVE" "state e \<noteq> WDG_STATE_RECOVERED"
  shows "wdg_invoked (snd body) = wdg_invoked tr @ [call]
       \<and> state (wdg_table (fst body) ! i) = WDG_STATE_RECOVERED
       \<and> timeout_count (wdg_table (fst body) ! i) = timeout_count e + 1
       \<and> recovery_count (wdg_table (fst body) ! i) = recovery_count e + 1
       \<and> total_timeouts (wdg_stats (fst body)) = total_timeouts (wdg_stats w) + 1
       \<and> total_recoveries (wdg_stats (fst body)) = total_recoveries (wdg_stats w) + 1
       \<and> (wdg_enabled w \<and> alone \<and> kept \<longrightarrow>
            wdg_invoked_for i (snd pass) = wdg_invoked_for i tr @ [call]
          \<and> state (wdg_table (fst pass) ! i) = WDG_STATE_RECOVERED
          \<and> timeout_count (wdg_table (fst pass) ! i) = timeout_count e + 1
          \<and> recovery_count (wdg_table (fst pass) ! i) = recovery_count e + 1)
       \<and> ((x = body \<or> x = pass \<and> wdg_enabled w \<and> kept) \<and> alone
            \<and> (\<forall>t. Call (Heartbeat (int i) t) \<notin> set ops) \<longrightarrow>
            wdg_invoked_for i (snd (wdg_run env ops x)) = wdg_invoked_for i (snd x)
          \<and> state (wdg_table (fst (wdg_run env ops x)) ! i) = WDG_STATE_RECOVERED
          \<and> timeout_count (wdg_table (fst (wdg_run env ops x)) ! i) = timeout_count e + 1
          \<and> recovery_count (wdg_table (fst (wdg_run env ops x)) ! i) = recovery_count e + 1
          \<and> (\<forall>t. wdg_check_entry env t i (wdg_run env ops x) = wdg_run env ops x))"
proof -
  have cap: "wdg_capture i (now - last_heartbeat e) e = call"
    by (simp add: wdg_capture_def wdg_recovery_action_def call_def)
  note own = wdg_check_entry_timeout [where wt = "(w, tr)" and i = i and now = now and env = env,
      simplified, OF wf i, folded e_def, OF act late st, unfolded cap, folded body_def]
  have a: "wdg_invoked (snd body) = wdg_invoked tr @ [call]"
    "state (wdg_table (fst body) ! i) = WDG_STATE_RECOVERED"
    "timeout_count (wdg_table (fst body) ! i) = timeout_count e + 1"
    "recovery_count (wdg_table (fst body) ! i) = recovery_count e + 1"
    "total_timeouts (wdg_stats (fst body)) = total_timeouts (wdg_stats w) + 1"
    "total_recoveries (wdg_stats (fst body)) = total_recoveries (wdg_stats w) + 1"
    using own by simp_all
  have wfb: "wdg_wf (fst body)" "i < wdg_count (fst body)"
    using wdg_check_entry_wf [of "(w, tr)" i env now] wf i by (simp_all add: body_def)
  let ?Post = "\<lambda>e' l. state e' = WDG_STATE_RECOVERED \<and> timeout_count e' = timeout_count e + 1
      \<and> recovery_count e' = recovery_count e + 1 \<and> l = wdg_invoked_for i tr @ [call]"
  have b: "?Post (wdg_table (fst pass) ! i) (wdg_invoked_for i (snd pass))"
    and wfp: "wdg_wf (fst pass)" "i < wdg_count (fst pass)"
    if en: "wdg_enabled w" and alone and kept
  proof -
    show "?Post (wdg_table (fst pass) ! i) (wdg_invoked_for i (snd pass))"
      unfolding pass_def
    proof (rule wdg_tick_phases [where Post = ?Post])
      fix y :: "wdg \<times> wdg_event list"
      assume wfy: "wdg_wf (fst y)" and iy: "i < wdg_count (fst y)"
        and ey: "wdg_table (fst y) ! i = wdg_table (fst (w, tr)) ! i"
        and ly: "wdg_invoked_for i (snd y) = wdg_invoked_for i (snd (w, tr))"
      from ey have ey': "wdg_table (fst y) ! i = e" by (simp add: e_def)
      note owny = wdg_check_entry_timeout [where wt = y and i = i and now = now and env = env,
          OF wfy iy, unfolded ey', OF act late st, unfolded cap]
      from owny(8) have "wdg_invoked_for i (snd (wdg_check_entry env now i y))
          = wdg_invoked_for i (snd y) @ [call]"
        by (rule wdg_invoked_for_own) (simp add: call_def)
      with owny ly
      show "?Post (wdg_table (fst (wdg_check_entry env now i y)) ! i)
          (wdg_invoked_for i (snd (wdg_check_entry env now i y)))"
        by simp
    qed (use wf i en \<open>alone\<close> \<open>kept\<close> in \<open>simp_all add: alone_def kept_def\<close>)
    show "wdg_wf (fst pass)" "i < wdg_count (fst pass)"
      using wdg_checker_tick_wf [of "(w, tr)" env now] wf i by (simp_all add: pass_def)
  qed
  have c: "wdg_invoked_for i (snd (wdg_run env ops y)) = wdg_invoked_for i (snd y)
          \<and> state (wdg_table (fst (wdg_run env ops y)) ! i) = WDG_STATE_RECOVERED
          \<and> timeout_count (wdg_table (fst (wdg_run env ops y)) ! i) = timeout_count e + 1
          \<and> recovery_count (wdg_table (fst (wdg_run env ops y)) ! i) = recovery_count e + 1
          \<and> (\<forall>t. wdg_check_entry env t i (wdg_run env ops y) = wdg_run env ops y)"
    if wfy: "wdg_wf (fst y)" and iy: "i < wdg_count (fst y)"
      and sy: "state (wdg_table (fst y) ! i) = WDG_STATE_RECOVERED"
        "timeout_count (wdg_table (fst y) ! i) = timeout_count e + 1"
        "recovery_count (wdg_table (fst y) ! i) = recovery_count e + 1"
      and alone and nohb: "\<forall>t. Call (Heartbeat (int i) t) \<notin> set ops"
    for y :: "wdg \<times> wdg_event list"
  proof -
    let ?D = "\<lambda>e'. e'\<lparr>active := False\<rparr> = (wdg_table (fst y) ! i)\<lparr>active := False\<rparr>"
    have q: "wdg_untouched t e'" if "?D e'" for t e'
      using wdg_entry_deactivated [OF that] sy(1) by (simp add: wdg_untouched_settled)
    have "wdg_wf (fst (wdg_run env ops y)) \<and> i < wdg_count (fst (wdg_run env ops y))
       \<and> ?D (wdg_table (fst (wdg_run env ops y)) ! i)
       \<and> wdg_invoked_for i (snd (wdg_run env ops y)) = wdg_invoked_for i (snd y)"
      by (rule wdg_run_frame [where D = ?D])
         (use wfy iy q nohb \<open>alone\<close> in \<open>simp_all add: alone_def\<close>)
    with wdg_entry_deactivated [of "wdg_table (fst (wdg_run env ops y)) ! i"
        "wdg_table (fst y) ! i"] sy
    show ?thesis by (simp add: wdg_check_entry_untouched wdg_untouched_settled)
  qed
  from a b wfb wfp c [of body] c [of pass] show ?thesis by blast
qed

theorem wdg_recovery_once_witness:
  "wdg_wf (snd (wdg_register ''A'' 200 (Some 7) 0 wdg_init))
   \<and> (0::nat) < wdg_count (snd (wdg_register ''A'' 200 (Some 7) 0 wdg_init))
   \<and> wdg_table (snd (wdg_register ''A'' 200 (Some 7) 0 wdg_init)) ! 0
       = \<lparr>active = True, name = ''A'', timeout_ms = 200, last_heartbeat = 0,
          state = WDG_STATE_IDLE, recovery_cb = Some 7, heartbeat_count = 0,
          timeout_count = 0, recovery_count = 0\<rparr>
   \<and> wdg_table (fst (wdg_checker_tick (wdg_beats_own_slot 260) 250
         (snd (wdg_register ''A'' 200 (Some 7) 0 wdg_init), []))) ! 0
       = \<lparr>active = True, name = ''A'', timeout_ms = 200, last_heartbeat = 260,
          state = WDG_STATE_RECOVERED, recovery_cb = Some 7, heartbeat_count = 1,
          timeout_count = 1, recovery_count = 1\<rparr>
   \<and> wdg_invoked_for 0 (snd (wdg_checker_tick (wdg_beats_own_slot 260) 250
         (snd (wdg_register ''A'' 200 (Some 7) 0 wdg_init), [])))
       = [\<lparr>rc_slot = 0, rc_action = Callback 7, rc_name = ''A'', rc_elapsed = 250\<rparr>]
   \<and> wdg_invoked_for 0 (snd (wdg_run (wdg_beats_own_slot 260)
         [Checker_tick 300, Call (Heartbeat 1 310), Checker_tick 350]
         (wdg_checker_tick (wdg_beats_own_slot 260) 250
           (snd (wdg_register ''A'' 200 (Some 7) 0 wdg_init), []))))
       = [\<lparr>rc_slot = 0, rc_action = Callback 7, rc_name = ''A'', rc_elapsed = 250\<rparr>]
   \<and> state (wdg_table (fst (wdg_run (wdg_beats_own_slot 260)
         [Checker_tick 300, Call (Heartbeat 1 310), Checker_tick 350]
         (wdg_checker_tick (wdg_beats_own_slot 260) 250
           (snd (wdg_register ''A'' 200 (Some 7) 0 wdg_init), [])))) ! 0)
       = WDG_STATE_RECOVERED"
proof -
  let ?w = "snd (wdg_register ''A'' 200 (Some 7) 0 wdg_init)"
  let ?env = "wdg_beats_own_slot 260"
  let ?ops = "[Checker_tick 300, Call (Heartbeat 1 310), Checker_tick 350]"
  let ?pass = "wdg_checker_tick ?env 250 (?w, [])"
  let ?call = "\<lparr>rc_slot = 0, rc_action = Callback 7, rc_name = ''A'', rc_elapsed = 250\<rparr>"
  have e: "wdg_table ?w ! 0 = \<lparr>active = True, name = ''A'', timeout_ms = 200,
      last_heartbeat = 0, state = WDG_STATE_IDLE, recovery_cb = Some 7, heartbeat_count = 0,
      timeout_count = 0, recovery_count = 0\<rparr>"
    by (simp add: wdg_eval)
  have p: "wdg_table (fst ?pass) ! 0 = \<lparr>active = True, name = ''A'', timeout_ms = 200,
      last_heartbeat = 260, state = WDG_STATE_RECOVERED, recovery_cb = Some 7,
      heartbeat_count = 1, timeout_count = 1, recovery_count = 1\<rparr>"
    by (simp add: wdg_eval wdg_beats_own_slot_def)
  have h: "wdg_wf ?w" "0 < wdg_count ?w" "active (wdg_table ?w ! 0)"
    "uint (timeout_ms (wdg_table ?w ! 0)) < 250 - last_heartbeat (wdg_table ?w ! 0)"
    "state (wdg_table ?w ! 0) \<noteq> WDG_STATE_UNRESPONSIVE"
    "state (wdg_table ?w ! 0) \<noteq> WDG_STATE_RECOVERED"
    unfolding e by (simp_all add: wdg_eval wdg_wf_def)
  have env: "wdg_enabled ?w"
    "\<forall>c w' t. rc_slot c \<noteq> 0 \<longrightarrow> Heartbeat (int 0) t \<notin> set (?env c w')"
    "\<forall>c w'. rc_slot c \<noteq> 0 \<longrightarrow> Unregister (int 0) \<notin> set (?env c w')"
    "\<forall>t. Call (Heartbeat (int 0) t) \<notin> set ?ops"
    by (simp_all add: wdg_eval wdg_beats_own_slot_def)
  note once = wdg_recovery_once [where w = ?w and i = 0 and now = 250 and env = ?env
      and tr = "[]" and ops = ?ops and x = ?pass, OF h, unfolded e]
  from once env have a: "wdg_invoked_for 0 (snd ?pass) = [?call]" by simp
  from once env have b: "wdg_invoked_for 0 (snd (wdg_run ?env ?ops ?pass))
      = wdg_invoked_for 0 (snd ?pass)"
    "state (wdg_table (fst (wdg_run ?env ?ops ?pass)) ! 0) = WDG_STATE_RECOVERED"
    by blast+
  from b(1) a have c: "wdg_invoked_for 0 (snd (wdg_run ?env ?ops ?pass)) = [?call]"
    by (rule trans)
  show ?thesis by (intro conjI h(1) h(2) e p a c b(2))
qed

section \<open>An entry that never sends a heartbeat\<close>




section \<open>The thresholds of the checker\<close>

text \<open>
  C3, as the code has it. The checker compares with \<open>>\<close>, as its comments say
  (\<open>>75% elapsed\<close>; \<open>timeout_ms\<close> is the maximum allowed time between heartbeats).
  When the checker, at uptime \<open>now\<close>, comes to a slot below \<open>wdg_count\<close> whose entry
  is active, with timeout \<open>T\<close> (its own \<open>timeout_ms\<close>) and
  \<open>el = now - last_heartbeat\<close>:
  \<^item> a Healthy entry with \<open>el\<close> strictly more than 75% of \<open>T\<close> and at most \<open>T\<close>
    becomes Warning, and nothing else changes;
  \<^item> a Healthy entry with \<open>el\<close> at most 75% of \<open>T\<close>, where \<open>3 * T\<close> fits
    \<open>uint32_t\<close>, and a Warning entry with \<open>el\<close> at most \<open>T\<close>, are left as they are;
  \<^item> a Healthy or Warning entry with \<open>el\<close> strictly more than \<open>T\<close> is marked
    Unresponsive and counted, its recovery action is invoked, once, on the data so
    marked, and when the loop body is done the entry is Recovered.

  The same is true of the whole pass and of the entry as it is when the pass starts, when
  the watchdog is enabled and no call made while the mutex is released for another slot is
  a heartbeat or an unregister for this slot.
\<close>

theorem wdg_tick_thresholds:
  fixes w :: wdg and tr :: "wdg_event list" and env :: wdg_window and i :: nat and now :: int
  defines "e \<equiv> wdg_table w ! i"
  defines "el \<equiv> now - last_heartbeat e"
  defines "T \<equiv> uint (timeout_ms e)"
  defines "call \<equiv> \<lparr>rc_slot = i,
      rc_action = (case recovery_cb e of None \<Rightarrow> Default_recovery | Some f \<Rightarrow> Callback f),
      rc_name = name e, rc_elapsed = word_of_int el\<rparr>"
  defines "marked \<equiv> w\<lparr>wdg_table := (wdg_table w)[i := e\<lparr>state := WDG_STATE_UNRESPONSIVE,
                        timeout_count := timeout_count e + 1\<rparr>],
      wdg_stats := (wdg_stats w)\<lparr>total_timeouts := total_timeouts (wdg_stats w) + 1\<rparr>\<rparr>"
  defines "body \<equiv> wdg_check_entry env now i (w, tr)"
  defines "pass \<equiv> wdg_checker_tick env now (w, tr)"
  defines "alone \<equiv> (\<forall>c w' t. rc_slot c \<noteq> i \<longrightarrow> Heartbeat (int i) t \<notin> set (env c w'))"
  defines "kept \<equiv> (\<forall>c w'. rc_slot c \<noteq> i \<longrightarrow> Unregister (int i) \<notin> set (env c w'))"
  assumes wf: "wdg_wf w" and i: "i < wdg_count w" and act: "active e"
  shows "(state e = WDG_STATE_HEALTHY \<and> 3 * T < 4 * el \<and> el \<le> T \<longrightarrow>
            body = (w\<lparr>wdg_table := (wdg_table w)[i := e\<lparr>state := WDG_STATE_WARNING\<rparr>]\<rparr>, tr))
       \<and> (state e = WDG_STATE_HEALTHY \<and> 4 * el \<le> 3 * T \<and> 3 * T < 2 ^ 32 \<longrightarrow> body = (w, tr))
       \<and> (state e = WDG_STATE_WARNING \<and> el \<le> T \<longrightarrow> body = (w, tr))
       \<and> ((state e = WDG_STATE_HEALTHY \<or> state e = WDG_STATE_WARNING) \<and> T < el \<longrightarrow>
            body = (wdg_timeout_end i
                      (fst (wdg_exec_all (env call marked) (marked, tr @ [Invoked call]))),
                    snd (wdg_exec_all (env call marked) (marked, tr @ [Invoked call])))
          \<and> state (wdg_table marked ! i) = WDG_STATE_UNRESPONSIVE
          \<and> wdg_invoked (snd body) = wdg_invoked tr @ [call]
          \<and> state (wdg_table (fst body) ! i) = WDG_STATE_RECOVERED)
       \<and> (wdg_enabled w \<and> alone \<and> kept \<longrightarrow>
            (state e = WDG_STATE_HEALTHY \<and> 3 * T < 4 * el \<and> el \<le> T \<longrightarrow>
               wdg_table (fst pass) ! i = e\<lparr>state := WDG_STATE_WARNING\<rparr>
             \<and> wdg_invoked_for i (snd pass) = wdg_invoked_for i tr)
          \<and> (state e = WDG_STATE_HEALTHY \<and> 4 * el \<le> 3 * T \<and> 3 * T < 2 ^ 32 \<longrightarrow>
               wdg_table (fst pass) ! i = e
             \<and> wdg_invoked_for i (snd pass) = wdg_invoked_for i tr)
          \<and> (state e = WDG_STATE_WARNING \<and> el \<le> T \<longrightarrow>
               wdg_table (fst pass) ! i = e
             \<and> wdg_invoked_for i (snd pass) = wdg_invoked_for i tr)
          \<and> ((state e = WDG_STATE_HEALTHY \<or> state e = WDG_STATE_WARNING) \<and> T < el \<longrightarrow>
               state (wdg_table (fst pass) ! i) = WDG_STATE_RECOVERED
             \<and> wdg_invoked_for i (snd pass) = wdg_invoked_for i tr @ [call]))"
proof -
  from wf i have len: "i < length (wdg_table w)" by (simp add: wdg_wf_def)
  have cap: "wdg_capture i (now - last_heartbeat e) e = call"
    by (simp add: wdg_capture_def wdg_recovery_action_def call_def el_def)
  have mk: "wdg_timeout_begin i w = marked"
    by (simp add: wdg_timeout_begin_def wdg_mark_unresponsive_def marked_def e_def)
  have warn: "wdg_check_entry env now i y = (wdg_warn i (fst y), snd y)"
    if "wdg_table (fst y) ! i = e" "state e = WDG_STATE_HEALTHY" "3 * T < 4 * el" "el \<le> T"
    for y :: "wdg \<times> wdg_event list"
  proof -
    have "uint (timeout_ms e * 3 div 4) < el"
      using wdg_warn_threshold(1) [of "timeout_ms e"] that(3) by (simp add: T_def)
    with that act show ?thesis
      by (intro wdg_check_entry_warn) (simp_all add: el_def T_def)
  qed
  have same: "wdg_check_entry env now i y = y"
    if "wdg_table (fst y) ! i = e"
      "state e = WDG_STATE_HEALTHY \<and> 4 * el \<le> 3 * T \<and> 3 * T < 2 ^ 32
       \<or> state e = WDG_STATE_WARNING \<and> el \<le> T"
    for y :: "wdg \<times> wdg_event list"
  proof -
    have "wdg_untouched now e"
      using that(2) wdg_warn_threshold(2,3) [of "timeout_ms e"]
      by (auto simp: wdg_untouched_def el_def T_def)
    with that(1) show ?thesis by (simp add: wdg_check_entry_untouched)
  qed
  have a1: "body = (w\<lparr>wdg_table := (wdg_table w)[i := e\<lparr>state := WDG_STATE_WARNING\<rparr>]\<rparr>, tr)"
    if "state e = WDG_STATE_HEALTHY" "3 * T < 4 * el" "el \<le> T"
    using warn [of "(w, tr)"] that by (simp add: body_def e_def wdg_warn_def)
  have a2: "body = (w, tr)"
    if "state e = WDG_STATE_HEALTHY \<and> 4 * el \<le> 3 * T \<and> 3 * T < 2 ^ 32
       \<or> state e = WDG_STATE_WARNING \<and> el \<le> T"
    using same [of "(w, tr)"] that by (simp add: body_def e_def)
  have out: "state e \<noteq> WDG_STATE_UNRESPONSIVE" "state e \<noteq> WDG_STATE_RECOVERED"
    if "state e = WDG_STATE_HEALTHY \<or> state e = WDG_STATE_WARNING"
    using that by auto
  have a4: "body = (wdg_timeout_end i
                      (fst (wdg_exec_all (env call marked) (marked, tr @ [Invoked call]))),
                    snd (wdg_exec_all (env call marked) (marked, tr @ [Invoked call])))
          \<and> state (wdg_table marked ! i) = WDG_STATE_UNRESPONSIVE
          \<and> wdg_invoked (snd body) = wdg_invoked tr @ [call]
          \<and> state (wdg_table (fst body) ! i) = WDG_STATE_RECOVERED"
    if s: "state e = WDG_STATE_HEALTHY \<or> state e = WDG_STATE_WARNING" and l: "T < el"
  proof -
    note own = wdg_check_entry_timeout [where wt = "(w, tr)" and i = i and now = now
        and env = env, simplified, OF wf i, folded e_def, OF act l [unfolded T_def el_def] out [OF s],
        unfolded cap mk, folded body_def]
    from own(1,2,8) len show ?thesis by (simp add: marked_def)
  qed
  have b: "(state e = WDG_STATE_HEALTHY \<and> 3 * T < 4 * el \<and> el \<le> T \<longrightarrow>
               wdg_table (fst pass) ! i = e\<lparr>state := WDG_STATE_WARNING\<rparr>
             \<and> wdg_invoked_for i (snd pass) = wdg_invoked_for i tr)
          \<and> (state e = WDG_STATE_HEALTHY \<and> 4 * el \<le> 3 * T \<and> 3 * T < 2 ^ 32 \<longrightarrow>
               wdg_table (fst pass) ! i = e
             \<and> wdg_invoked_for i (snd pass) = wdg_invoked_for i tr)
          \<and> (state e = WDG_STATE_WARNING \<and> el \<le> T \<longrightarrow>
               wdg_table (fst pass) ! i = e
             \<and> wdg_invoked_for i (snd pass) = wdg_invoked_for i tr)
          \<and> ((state e = WDG_STATE_HEALTHY \<or> state e = WDG_STATE_WARNING) \<and> T < el \<longrightarrow>
               state (wdg_table (fst pass) ! i) = WDG_STATE_RECOVERED
             \<and> wdg_invoked_for i (snd pass) = wdg_invoked_for i tr @ [call])"
    if en: "wdg_enabled w" and alone and kept
  proof -
    note ph = wdg_tick_phases [where wt = "(w, tr)" and i = i and env = env and now = now,
        simplified, OF wf i en, folded pass_def e_def]
    have nohb: "\<And>c w' t. rc_slot c \<noteq> i \<Longrightarrow> Heartbeat (int i) t \<notin> set (env c w')"
      and nounreg: "\<And>c w'. rc_slot c \<noteq> i \<Longrightarrow> Unregister (int i) \<notin> set (env c w')"
      using \<open>alone\<close> \<open>kept\<close> by (simp_all add: alone_def kept_def)
    have p1: "wdg_table (fst pass) ! i = e\<lparr>state := WDG_STATE_WARNING\<rparr>
             \<and> wdg_invoked_for i (snd pass) = wdg_invoked_for i tr"
      if c: "state e = WDG_STATE_HEALTHY" "3 * T < 4 * el" "el \<le> T"
    proof (rule ph [where Post = "\<lambda>e' l. e' = e\<lparr>state := WDG_STATE_WARNING\<rparr>
        \<and> l = wdg_invoked_for i tr", OF nohb nounreg])
      fix y :: "wdg \<times> wdg_event list"
      assume y: "wdg_wf (fst y)" "i < wdg_count (fst y)" "wdg_table (fst y) ! i = e"
        "wdg_invoked_for i (snd y) = wdg_invoked_for i tr"
      then have "i < length (wdg_table (fst y))" by (simp add: wdg_wf_def)
      with warn [OF y(3) c] y(3,4)
      show "wdg_table (fst (wdg_check_entry env now i y)) ! i = e\<lparr>state := WDG_STATE_WARNING\<rparr>
          \<and> wdg_invoked_for i (snd (wdg_check_entry env now i y)) = wdg_invoked_for i tr"
        by (simp add: wdg_warn_def)
    qed
    have p2: "wdg_table (fst pass) ! i = e
             \<and> wdg_invoked_for i (snd pass) = wdg_invoked_for i tr"
      if c: "state e = WDG_STATE_HEALTHY \<and> 4 * el \<le> 3 * T \<and> 3 * T < 2 ^ 32
       \<or> state e = WDG_STATE_WARNING \<and> el \<le> T"
    proof (rule ph [where Post = "\<lambda>e' l. e' = e \<and> l = wdg_invoked_for i tr", OF nohb nounreg])
      fix y :: "wdg \<times> wdg_event list"
      assume y: "wdg_table (fst y) ! i = e"
        "wdg_invoked_for i (snd y) = wdg_invoked_for i tr"
      with same [OF y(1) c]
      show "wdg_table (fst (wdg_check_entry env now i y)) ! i = e
          \<and> wdg_invoked_for i (snd (wdg_check_entry env now i y)) = wdg_invoked_for i tr"
        by simp
    qed
    have p4: "state (wdg_table (fst pass) ! i) = WDG_STATE_RECOVERED
             \<and> wdg_invoked_for i (snd pass) = wdg_invoked_for i tr @ [call]"
      if s: "state e = WDG_STATE_HEALTHY \<or> state e = WDG_STATE_WARNING" and l: "T < el"
    proof (rule ph [where Post = "\<lambda>e' l. state e' = WDG_STATE_RECOVERED
        \<and> l = wdg_invoked_for i tr @ [call]", OF nohb nounreg])
      fix y :: "wdg \<times> wdg_event list"
      assume y: "wdg_wf (fst y)" "i < wdg_count (fst y)" "wdg_table (fst y) ! i = e"
        "wdg_invoked_for i (snd y) = wdg_invoked_for i tr"
      note owny = wdg_check_entry_timeout [where wt = y and i = i and now = now and env = env,
          OF y(1,2), unfolded y(3), OF act l [unfolded T_def el_def] out [OF s], unfolded cap]
      from owny(8) have "wdg_invoked_for i (snd (wdg_check_entry env now i y))
          = wdg_invoked_for i (snd y) @ [call]"
        by (rule wdg_invoked_for_own) (simp add: call_def)
      with owny(2) y(4)
      show "state (wdg_table (fst (wdg_check_entry env now i y)) ! i) = WDG_STATE_RECOVERED
          \<and> wdg_invoked_for i (snd (wdg_check_entry env now i y))
              = wdg_invoked_for i tr @ [call]"
        by simp
    qed
    from p1 p2 p4 show ?thesis by blast
  qed
  from a1 a2 a4 b show ?thesis by blast
qed

text \<open>A thread registered at uptime 0 with a timeout of 1000 ms sends one heartbeat at
  uptime 0. At uptime 750, exactly 75% of the timeout, the tick leaves it Healthy; at
  uptime 1000, exactly the timeout, the tick makes it Warning and invokes nothing.\<close>

theorem wdg_tick_thresholds_counterexample:
  "wdg_enabled (fst (wdg_run wdg_no_calls
      [Call (Register ''sensor'' 1000 None 0), Call (Heartbeat 0 0)] (wdg_init, [])))
   \<and> active (wdg_table (fst (wdg_run wdg_no_calls
      [Call (Register ''sensor'' 1000 None 0), Call (Heartbeat 0 0)] (wdg_init, []))) ! 0)
   \<and> timeout_ms (wdg_table (fst (wdg_run wdg_no_calls
      [Call (Register ''sensor'' 1000 None 0), Call (Heartbeat 0 0)] (wdg_init, []))) ! 0) = 1000
   \<and> last_heartbeat (wdg_table (fst (wdg_run wdg_no_calls
      [Call (Register ''sensor'' 1000 None 0), Call (Heartbeat 0 0)] (wdg_init, []))) ! 0) = 0
   \<and> wdg_get_state 0 (fst (wdg_run wdg_no_calls
      [Call (Register ''sensor'' 1000 None 0), Call (Heartbeat 0 0)] (wdg_init, [])))
       = WDG_STATE_HEALTHY
   \<and> wdg_get_state 0 (fst (wdg_checker_tick wdg_no_calls 750 (wdg_run wdg_no_calls
      [Call (Register ''sensor'' 1000 None 0), Call (Heartbeat 0 0)] (wdg_init, []))))
       = WDG_STATE_HEALTHY
   \<and> wdg_get_state 0 (fst (wdg_checker_tick wdg_no_calls 1000 (wdg_run wdg_no_calls
      [Call (Register ''sensor'' 1000 None 0), Call (Heartbeat 0 0)] (wdg_init, []))))
       = WDG_STATE_WARNING
   \<and> wdg_invoked (snd (wdg_checker_tick wdg_no_calls 1000 (wdg_run wdg_no_calls
      [Call (Register ''sensor'' 1000 None 0), Call (Heartbeat 0 0)] (wdg_init, [])))) = []"
  by (simp add: wdg_eval)

theorem wdg_tick_thresholds_witness:
  "wdg_wf (fst (wdg_run wdg_no_calls
      [Call (Register ''sensor'' 1000 None 0), Call (Heartbeat 0 0)] (wdg_init, [])))
   \<and> wdg_enabled (fst (wdg_run wdg_no_calls
      [Call (Register ''sensor'' 1000 None 0), Call (Heartbeat 0 0)] (wdg_init, [])))
   \<and> wdg_table (fst (wdg_run wdg_no_calls
      [Call (Register ''sensor'' 1000 None 0), Call (Heartbeat 0 0)] (wdg_init, []))) ! 0
       = \<lparr>active = True, name = ''sensor'', timeout_ms = 1000, last_heartbeat = 0,
          state = WDG_STATE_HEALTHY, recovery_cb = None, heartbeat_count = 1,
          timeout_count = 0, recovery_count = 0\<rparr>
   \<and> state (wdg_table (fst (wdg_checker_tick wdg_no_calls 750 (wdg_run wdg_no_calls
      [Call (Register ''sensor'' 1000 None 0), Call (Heartbeat 0 0)] (wdg_init, [])))) ! 0)
       = WDG_STATE_HEALTHY
   \<and> state (wdg_table (fst (wdg_checker_tick wdg_no_calls 751 (wdg_run wdg_no_calls
      [Call (Register ''sensor'' 1000 None 0), Call (Heartbeat 0 0)] (wdg_init, [])))) ! 0)
       = WDG_STATE_WARNING
   \<and> state (wdg_table (fst (wdg_checker_tick wdg_no_calls 1001 (wdg_run wdg_no_calls
      [Call (Register ''sensor'' 1000 None 0), Call (Heartbeat 0 0)] (wdg_init, [])))) ! 0)
       = WDG_STATE_RECOVERED
   \<and> wdg_invoked_for 0 (snd (wdg_checker_tick wdg_no_calls 1001 (wdg_run wdg_no_calls
      [Call (Register ''sensor'' 1000 None 0), Call (Heartbeat 0 0)] (wdg_init, []))))
      = [\<lparr>rc_slot = 0, rc_action = Default_recovery, rc_name = ''sensor'', rc_elapsed = 1001\<rparr>]"
proof -
  let ?wt = "wdg_run wdg_no_calls
      [Call (Register ''sensor'' 1000 None 0), Call (Heartbeat 0 0)] (wdg_init, [])"
  let ?w = "fst ?wt"
  have tr: "snd ?wt = [Registered 0]" by (simp add: wdg_eval)
  have wt: "?wt = (?w, [Registered 0])" using tr by (simp add: prod_eq_iff)
  have e: "wdg_table ?w ! 0 = \<lparr>active = True, name = ''sensor'', timeout_ms = 1000,
      last_heartbeat = 0, state = WDG_STATE_HEALTHY, recovery_cb = None, heartbeat_count = 1,
      timeout_count = 0, recovery_count = 0\<rparr>"
    by (simp add: wdg_eval)
  have h: "wdg_wf ?w" "0 < wdg_count ?w" "active (wdg_table ?w ! 0)"
    unfolding e by (simp_all add: wdg_eval wdg_wf_def)
  have env: "wdg_enabled ?w"
    "\<forall>c w' t. rc_slot c \<noteq> 0 \<longrightarrow> Heartbeat (int 0) t \<notin> set (wdg_no_calls c w')"
    "\<forall>c w'. rc_slot c \<noteq> 0 \<longrightarrow> Unregister (int 0) \<notin> set (wdg_no_calls c w')"
    by (simp_all add: wdg_eval)
  note th = wdg_tick_thresholds [where w = ?w and i = 0 and env = wdg_no_calls
      and tr = "[Registered 0]", OF h, unfolded e, folded wt]
  from th [of 750] env
  have a: "wdg_table (fst (wdg_checker_tick wdg_no_calls 750 ?wt)) ! 0
      = \<lparr>active = True, name = ''sensor'', timeout_ms = 1000,
      last_heartbeat = 0, state = WDG_STATE_HEALTHY, recovery_cb = None, heartbeat_count = 1,
      timeout_count = 0, recovery_count = 0\<rparr>"
    by simp
  from th [of 751] env
  have b: "wdg_table (fst (wdg_checker_tick wdg_no_calls 751 ?wt)) ! 0
      = \<lparr>active = True, name = ''sensor'', timeout_ms = 1000,
      last_heartbeat = 0, state = WDG_STATE_HEALTHY, recovery_cb = None, heartbeat_count = 1,
      timeout_count = 0, recovery_count = 0\<rparr>\<lparr>state := WDG_STATE_WARNING\<rparr>"
    by simp
  from th [of 1001] env
  have c: "state (wdg_table (fst (wdg_checker_tick wdg_no_calls 1001 ?wt)) ! 0)
        = WDG_STATE_RECOVERED"
    "wdg_invoked_for 0 (snd (wdg_checker_tick wdg_no_calls 1001 ?wt))
        = [\<lparr>rc_slot = 0, rc_action = Default_recovery, rc_name = ''sensor'', rc_elapsed = 1001\<rparr>]"
    by simp_all
  from a b c e h(1) env(1) show ?thesis by simp
qed

text \<open>Where \<open>timeout_ms * 3\<close> does not fit \<open>uint32_t\<close> the product wraps and the
  warning comes early, against the comment \<open>>75% elapsed\<close>: with a timeout of
  \<open>2^31\<close> ms the threshold is a quarter of the timeout, and a Healthy thread is moved
  to Warning one millisecond after it.\<close>

lemma wdg_warning_at_a_quarter:
  "uint ((2147483648 :: 32 word) * 3 div 4) = 536870912
   \<and> wdg_get_state 0 (fst (wdg_run wdg_no_calls
        [Call (Register ''slow'' 2147483648 None 0), Call (Heartbeat 0 0),
         Checker_tick 536870913] (wdg_init, []))) = WDG_STATE_WARNING"
  by (simp add: wdg_eval)

section \<open>Heartbeats\<close>

text \<open>
  C4. For a slot in range whose entry is active, \<open>wdg_heartbeat\<close> stores the current
  uptime in \<open>last_heartbeat\<close>, sets the state to \<open>WDG_STATE_HEALTHY\<close> whatever it was
  before, adds one to the entry's \<open>heartbeat_count\<close> and to \<open>total_heartbeats\<close> (both
  \<open>uint32_t\<close>, so the addition wraps at \<open>2^32\<close>) and leaves the other fields of the
  entry alone; \<open>wdg_get_state\<close> right after returns \<open>WDG_STATE_HEALTHY\<close>.
\<close>

theorem wdg_heartbeat_active:
  assumes "0 \<le> slot" and "slot < int WDG_MAX_THREADS"
    and "length (wdg_table w) = WDG_MAX_THREADS"
    and "active (wdg_table w ! nat slot)"
  shows "wdg_table (wdg_heartbeat slot now w) ! nat slot =
           (wdg_table w ! nat slot)\<lparr>last_heartbeat := now, state := WDG_STATE_HEALTHY,
              heartbeat_count := heartbeat_count (wdg_table w ! nat slot) + 1\<rparr>
       \<and> total_heartbeats (wdg_stats (wdg_heartbeat slot now w)) =
           total_heartbeats (wdg_stats w) + 1
       \<and> wdg_get_state slot (wdg_heartbeat slot now w) = WDG_STATE_HEALTHY"
  using assms by (simp add: wdg_heartbeat_def wdg_get_state_def Let_def)

theorem wdg_heartbeat_active_witness:
  "0 \<le> (0::int) \<and> 0 < int WDG_MAX_THREADS
   \<and> length (wdg_table (fst (wdg_run wdg_no_calls
        [Call (Register ''sensor'' 1000 (Some 1) 0), Checker_tick 1200] (wdg_init, []))))
       = WDG_MAX_THREADS
   \<and> active (wdg_table (fst (wdg_run wdg_no_calls
        [Call (Register ''sensor'' 1000 (Some 1) 0), Checker_tick 1200] (wdg_init, []))) ! nat 0)
   \<and> wdg_get_state 0 (fst (wdg_run wdg_no_calls
        [Call (Register ''sensor'' 1000 (Some 1) 0), Checker_tick 1200] (wdg_init, [])))
       = WDG_STATE_RECOVERED
   \<and> wdg_get_state 0 (wdg_heartbeat 0 1300 (fst (wdg_run wdg_no_calls
        [Call (Register ''sensor'' 1000 (Some 1) 0), Checker_tick 1200] (wdg_init, []))))
       = WDG_STATE_HEALTHY
   \<and> total_heartbeats (wdg_stats (wdg_heartbeat 0 1300 (fst (wdg_run wdg_no_calls
        [Call (Register ''sensor'' 1000 (Some 1) 0), Checker_tick 1200] (wdg_init, []))))) = 1"
proof -
  let ?w = "fst (wdg_run wdg_no_calls
        [Call (Register ''sensor'' 1000 (Some 1) 0), Checker_tick 1200] (wdg_init, []))"
  have h: "0 \<le> (0::int)" "0 < int WDG_MAX_THREADS" "length (wdg_table ?w) = WDG_MAX_THREADS"
    "active (wdg_table ?w ! nat 0)" "wdg_get_state 0 ?w = WDG_STATE_RECOVERED"
    "total_heartbeats (wdg_stats ?w) = 0"
    by (simp_all add: wdg_eval)
  from wdg_heartbeat_active [OF h(1-4), of 1300] h show ?thesis by simp
qed

section \<open>The disabled watchdog\<close>



section \<open>Registration at capacity\<close>

text \<open>
  C6. When \<open>wdg_count\<close> has reached the capacity \<open>WDG_MAX_THREADS\<close>, \<open>wdg_register\<close>
  returns the failure value \<open>-1\<close> and the watchdog data are exactly what they were: no
  entry, no counter and not the allocated-slot count change, and so the healthy count
  is the same too.
\<close>

theorem wdg_register_full:
  assumes "wdg_count w \<ge> WDG_MAX_THREADS"
  shows "wdg_register nm tmo cb now w = (- 1, w)
       \<and> wdg_get_healthy_count (snd (wdg_register nm tmo cb now w)) = wdg_get_healthy_count w"
  using assms by (simp add: wdg_register_def)

theorem wdg_register_full_witness:
  "WDG_MAX_THREADS \<le> wdg_count (fst (wdg_run wdg_no_calls [Call (Register ''t0'' 1000 None 0), Call (Register ''t1'' 1000 None 1), Call (Register ''t2'' 1000 None 2), Call (Register ''t3'' 1000 None 3), Call (Register ''t4'' 1000 None 4), Call (Register ''t5'' 1000 None 5), Call (Register ''t6'' 1000 None 6), Call (Register ''t7'' 1000 None 7)] (wdg_init, [])))
   \<and> wdg_register ''ninth'' 500 None 9 (fst (wdg_run wdg_no_calls [Call (Register ''t0'' 1000 None 0), Call (Register ''t1'' 1000 None 1), Call (Register ''t2'' 1000 None 2), Call (Register ''t3'' 1000 None 3), Call (Register ''t4'' 1000 None 4), Call (Register ''t5'' 1000 None 5), Call (Register ''t6'' 1000 None 6), Call (Register ''t7'' 1000 None 7)] (wdg_init, [])))
       = (- 1, fst (wdg_run wdg_no_calls [Call (Register ''t0'' 1000 None 0), Call (Register ''t1'' 1000 None 1), Call (Register ''t2'' 1000 None 2), Call (Register ''t3'' 1000 None 3), Call (Register ''t4'' 1000 None 4), Call (Register ''t5'' 1000 None 5), Call (Register ''t6'' 1000 None 6), Call (Register ''t7'' 1000 None 7)] (wdg_init, [])))"
proof -
  let ?w = "fst (wdg_run wdg_no_calls [Call (Register ''t0'' 1000 None 0), Call (Register ''t1'' 1000 None 1), Call (Register ''t2'' 1000 None 2), Call (Register ''t3'' 1000 None 3), Call (Register ''t4'' 1000 None 4), Call (Register ''t5'' 1000 None 5), Call (Register ''t6'' 1000 None 6), Call (Register ''t7'' 1000 None 7)] (wdg_init, []))"
  have full: "WDG_MAX_THREADS \<le> wdg_count ?w"
    by (simp add: wdg_register_def wdg_init_def WDG_MAX_THREADS_def Let_def)
  from wdg_register_full [OF full, of "''ninth''" 500 None 9] full show ?thesis
    by blast
qed

section \<open>Calls on slots that are not active\<close>

text \<open>
  C7. For every \<open>int\<close> slot, negative and past the table included: a second
  \<open>wdg_unregister\<close> of the same slot changes nothing any more, and on a slot that is out
  of range or whose entry is not active both \<open>wdg_heartbeat\<close> and \<open>wdg_unregister\<close>
  return the data unchanged. Both functions return \<open>void\<close>; there is no error to signal.
\<close>

theorem wdg_invalid_slot_noop:
  "wdg_unregister slot (wdg_unregister slot w) = wdg_unregister slot w
   \<and> (slot < 0 \<or> int WDG_MAX_THREADS \<le> slot \<or> \<not> active (wdg_table w ! nat slot)
        \<longrightarrow> wdg_heartbeat slot now w = w \<and> wdg_unregister slot w = w)"
proof -
  have "wdg_unregister slot (wdg_unregister slot w) = wdg_unregister slot w"
  proof (cases "nat slot < length (wdg_table w)")
    case True
    then show ?thesis by (simp add: wdg_unregister_def Let_def)
  next
    case False
    then have "(wdg_table w)[nat slot := x] = wdg_table w" for x
      by (simp add: list_update_beyond)
    then show ?thesis by (simp add: wdg_unregister_def Let_def)
  qed
  then show ?thesis by (auto simp: wdg_heartbeat_def wdg_unregister_def Let_def)
qed

theorem wdg_invalid_slot_noop_witness:
  "\<not> active (wdg_table (wdg_unregister 0
        (snd (wdg_register ''sensor'' 1000 None 0 wdg_init))) ! nat 0)
   \<and> wdg_heartbeat 0 7 (wdg_unregister 0 (snd (wdg_register ''sensor'' 1000 None 0 wdg_init)))
       = wdg_unregister 0 (snd (wdg_register ''sensor'' 1000 None 0 wdg_init))
   \<and> wdg_unregister 0 (wdg_unregister 0 (snd (wdg_register ''sensor'' 1000 None 0 wdg_init)))
       = wdg_unregister 0 (snd (wdg_register ''sensor'' 1000 None 0 wdg_init))
   \<and> wdg_heartbeat (- 3) 7 wdg_init = wdg_init
   \<and> wdg_unregister 8 wdg_init = wdg_init"
proof -
  let ?w = "wdg_unregister 0 (snd (wdg_register ''sensor'' 1000 None 0 wdg_init))"
  have off: "\<not> active (wdg_table ?w ! nat 0)"
    by (simp add: wdg_eval)
  have "(8::int) \<ge> int WDG_MAX_THREADS" by (simp add: WDG_MAX_THREADS_def)
  with off wdg_invalid_slot_noop [of 0 ?w 7] wdg_invalid_slot_noop [of "- 3" wdg_init 7]
    wdg_invalid_slot_noop [of 8 wdg_init 7]
  show ?thesis by simp
qed

section \<open>Querying the state of a slot\<close>

text \<open>
  C8. \<open>wdg_get_state\<close> returns \<open>WDG_STATE_IDLE\<close> for a slot out of range, but for a
  slot in range it returns the stored state without looking at \<open>active\<close>, unlike
  \<open>wdg_heartbeat\<close>, \<open>wdg_unregister\<close>, \<open>wdg_get_healthy_count\<close> and
  \<open>wdg_dump_status\<close>. Register a thread, let it send a heartbeat and unregister it: its
  slot is now inactive, and the query still answers \<open>WDG_STATE_HEALTHY\<close>.
\<close>

theorem wdg_get_state_unregistered:
  "\<not> active (wdg_table (wdg_unregister 0 (wdg_heartbeat 0 5
        (snd (wdg_register ''sensor'' 1000 None 0 wdg_init)))) ! 0)
   \<and> wdg_get_state 0 (wdg_unregister 0 (wdg_heartbeat 0 5
        (snd (wdg_register ''sensor'' 1000 None 0 wdg_init)))) = WDG_STATE_HEALTHY"
  by (simp add: wdg_get_state_def wdg_unregister_def wdg_heartbeat_def wdg_register_def
        wdg_init_def WDG_MAX_THREADS_def Let_def)

text \<open>What the query does answer with \<open>WDG_STATE_IDLE\<close>: a slot out of range, and
  on a well-formed watchdog a slot that no registration has handed out yet.\<close>

lemma wdg_get_state_out_of_range:
  "slot < 0 \<or> int WDG_MAX_THREADS \<le> slot \<Longrightarrow> wdg_get_state slot w = WDG_STATE_IDLE"
  by (auto simp: wdg_get_state_def)

lemma wdg_get_state_unused:
  assumes "wdg_wf w" and "int (wdg_count w) \<le> slot"
  shows "wdg_get_state slot w = WDG_STATE_IDLE"
proof (cases "slot < int WDG_MAX_THREADS")
  case True
  with assms have "drop (wdg_count w) (wdg_table w) ! (nat slot - wdg_count w) = zero_entry"
    by (simp add: wdg_wf_def nat_less_iff)
  moreover from assms True have "wdg_count w + (nat slot - wdg_count w) = nat slot"
    by simp
  moreover from assms True have "nat slot < length (wdg_table w)"
    by (simp add: wdg_wf_def nat_less_iff)
  ultimately have "wdg_table w ! nat slot = zero_entry"
    by (simp add: nth_drop)
  with assms True show ?thesis
    by (simp add: wdg_get_state_def zero_entry_def)
next
  case False
  then show ?thesis by (simp add: wdg_get_state_def)
qed

section \<open>Slots are handed out once\<close>

text \<open>
  C9. \<open>wdg_register\<close> hands out the slot \<open>wdg_count\<close> and increments the count, and
  nothing ever decrements it. So in every run of calls and passes, from any well-formed
  watchdog and whatever is called while the mutex is released, the slots returned by the
  successful registrations are strictly increasing, hence pairwise distinct; a slot that
  a registration has returned is not returned by any registration after it, and the
  entry in it keeps the name (the first 23 characters), the timeout and the callback of
  that registration through all later calls. \<open>wdg_unregister\<close> of a slot in range
  leaves the entry in it inactive, and it changes nothing but that flag: every entry
  agrees with what it was in all other fields, the entries in the other slots are what
  they were, and so are the count, the enable flag and the aggregates.
\<close>

theorem wdg_slots_never_reused:
  assumes wf: "wdg_wf w"
  shows "sorted_wrt (<) (wdg_slots (snd (wdg_run env ops (w, []))))
       \<and> distinct (wdg_slots (snd (wdg_run env ops (w, []))))
       \<and> (wdg_register nm T cb t0 w = (s, w1) \<and> s \<noteq> - 1 \<longrightarrow>
            s = int (wdg_count w) \<and> s \<notin> set (wdg_slots (snd (wdg_run env ops (w1, []))))
            \<and> name (wdg_table (fst (wdg_run env ops (w1, []))) ! nat s) = take 23 nm
            \<and> timeout_ms (wdg_table (fst (wdg_run env ops (w1, []))) ! nat s) = T
            \<and> recovery_cb (wdg_table (fst (wdg_run env ops (w1, []))) ! nat s) = cb)
       \<and> (0 \<le> slot \<and> slot < int WDG_MAX_THREADS \<longrightarrow>
            \<not> active (wdg_table (wdg_unregister slot w) ! nat slot))
       \<and> (wdg_table (wdg_unregister slot w) ! j)\<lparr>active := False\<rparr>
            = (wdg_table w ! j)\<lparr>active := False\<rparr>
       \<and> (j \<noteq> nat slot \<longrightarrow> wdg_table (wdg_unregister slot w) ! j = wdg_table w ! j)
       \<and> length (wdg_table (wdg_unregister slot w)) = length (wdg_table w)
       \<and> wdg_count (wdg_unregister slot w) = wdg_count w
       \<and> wdg_enabled (wdg_unregister slot w) = wdg_enabled w
       \<and> wdg_stats (wdg_unregister slot w) = wdg_stats w"
proof -
  have a: "sorted_wrt (<) (wdg_slots (snd (wdg_run env ops (w, []))))"
    "distinct (wdg_slots (snd (wdg_run env ops (w, []))))"
    using wdg_run_slots [of "(w, [])" env ops] by (simp_all add: strict_sorted_iff)
  have b: "s = int (wdg_count w) \<and> s \<notin> set (wdg_slots (snd (wdg_run env ops (w1, []))))
            \<and> name (wdg_table (fst (wdg_run env ops (w1, []))) ! nat s) = take 23 nm
            \<and> timeout_ms (wdg_table (fst (wdg_run env ops (w1, []))) ! nat s) = T
            \<and> recovery_cb (wdg_table (fst (wdg_run env ops (w1, []))) ! nat s) = cb"
    if reg: "wdg_register nm T cb t0 w = (s, w1)" and ok: "s \<noteq> - 1"
  proof -
    from reg ok have room: "wdg_count w < WDG_MAX_THREADS"
      by (auto simp: wdg_register_def split: if_splits)
    from reg wdg_register_ok [OF room, of nm T cb t0]
    have s: "s = int (wdg_count w)"
      and w1: "w1 = w\<lparr>wdg_count := wdg_count w + 1, wdg_table := (wdg_table w)[wdg_count w :=
          \<lparr>active = True, name = take 23 nm, timeout_ms = T, last_heartbeat = t0,
           state = WDG_STATE_IDLE, recovery_cb = cb, heartbeat_count = 0,
           timeout_count = 0, recovery_count = 0\<rparr>]\<rparr>"
      by simp_all
    from wf room have len: "wdg_count w < length (wdg_table w)" by (simp add: wdg_wf_def)
    have wf1: "wdg_wf (fst (w1, [] :: wdg_event list))"
      using wdg_exec_wf [of "(w, [])" "Register nm T cb t0"] wf reg by simp
    have s1: "wdg_count w < wdg_count (fst (w1, [] :: wdg_event list))" by (simp add: w1)
    from wdg_run_slots [of "(w1, [])" env ops]
    have "\<forall>x\<in>set (wdg_slots (snd (wdg_run env ops (w1, [])))). int (wdg_count w1) \<le> x"
      by auto
    then have fresh: "s \<notin> set (wdg_slots (snd (wdg_run env ops (w1, []))))"
      using s by (auto simp: w1)
    have "wdg_entry_ident (wdg_table (fst (wdg_run env ops (w1, []))) ! wdg_count w)
        = wdg_entry_ident (wdg_table w1 ! wdg_count w)"
      using wdg_run_identity [OF wf1 s1, of env ops] by simp
    also have "\<dots> = (take 23 nm, T, cb)"
      using len by (simp add: w1 wdg_entry_ident_def)
    finally show ?thesis using s fresh by (simp add: wdg_entry_ident_def)
  qed
  from wf have "length (wdg_table w) = WDG_MAX_THREADS" by (simp add: wdg_wf_def)
  from a b wdg_unregister_frame [of slot w j] wdg_unregister_clears [OF _ _ this, of slot]
  show ?thesis by blast
qed

theorem wdg_slots_never_reused_witness:
  "wdg_wf wdg_init
   \<and> wdg_register ''a'' 100 None 0 wdg_init = (0, snd (wdg_register ''a'' 100 None 0 wdg_init))
   \<and> wdg_slots (snd (wdg_run wdg_no_calls [Call (Register ''a'' 100 None 0),
        Call (Unregister 0), Call (Register ''b'' 200 (Some 3) 5), Checker_tick 500,
        Call (Register ''c'' 300 None 600)] (wdg_init, []))) = [0, 1, 2]
   \<and> 0 \<notin> set (wdg_slots (snd (wdg_run wdg_no_calls [Call (Unregister 0),
        Call (Register ''b'' 200 (Some 3) 5), Checker_tick 500,
        Call (Register ''c'' 300 None 600)]
        (snd (wdg_register ''a'' 100 None 0 wdg_init), []))))
   \<and> name (wdg_table (fst (wdg_run wdg_no_calls [Call (Unregister 0),
        Call (Register ''b'' 200 (Some 3) 5), Checker_tick 500,
        Call (Register ''c'' 300 None 600)]
        (snd (wdg_register ''a'' 100 None 0 wdg_init), []))) ! nat 0) = ''a''
   \<and> active (wdg_table (snd (wdg_register ''a'' 100 None 0 wdg_init)) ! nat 0)
   \<and> \<not> active (wdg_table (wdg_unregister 0
        (snd (wdg_register ''a'' 100 None 0 wdg_init))) ! nat 0)"
proof -
  let ?w1 = "snd (wdg_register ''a'' 100 None 0 wdg_init)"
  let ?ops = "[Call (Unregister 0), Call (Register ''b'' 200 (Some 3) 5),
        Checker_tick 500, Call (Register ''c'' 300 None 600)]"
  have wf: "wdg_wf wdg_init" "wdg_wf ?w1"
    by (simp_all add: wdg_wf_def wdg_init_def WDG_MAX_THREADS_def wdg_register_def Let_def)
  have reg: "wdg_register ''a'' 100 None 0 wdg_init = (0, ?w1)"
    by (simp add: wdg_register_def wdg_init_def WDG_MAX_THREADS_def Let_def)
  have sl: "wdg_slots (snd (wdg_run wdg_no_calls (Call (Register ''a'' 100 None 0) # ?ops)
        (wdg_init, []))) = [0, 1, 2]"
    by (simp add: wdg_eval)
  have act: "active (wdg_table ?w1 ! nat 0)" "(0::int) < int WDG_MAX_THREADS"
    by (simp_all add: wdg_eval)
  from wdg_slots_never_reused [OF wf(1), of wdg_no_calls ?ops "''a''" 100 None 0 0 ?w1] reg
  have a: "0 \<notin> set (wdg_slots (snd (wdg_run wdg_no_calls ?ops (?w1, []))))"
    "name (wdg_table (fst (wdg_run wdg_no_calls ?ops (?w1, []))) ! nat 0) = ''a''"
    by simp_all
  from wdg_slots_never_reused [OF wf(2), of _ _ _ _ _ _ _ _ 0] act(2)
  have b: "\<not> active (wdg_table (wdg_unregister 0 ?w1) ! nat 0)" by simp
  from a b wf(1) reg sl act(1) show ?thesis by blast
qed

section \<open>The aggregates are the sums of the per-entry counters, modulo \<open>2^32\<close>\<close>

text \<open>
  C10, as the code has it. The aggregates and the per-entry counters are \<open>uint32_t\<close>.
  On a well-formed watchdog where \<open>total_heartbeats\<close>, \<open>total_timeouts\<close> and
  \<open>total_recoveries\<close> are the sums in \<open>uint32_t\<close> arithmetic of
  \<open>heartbeat_count\<close>, \<open>timeout_count\<close> and \<open>recovery_count\<close> over all
  \<open>WDG_MAX_THREADS\<close> slots of the table, active or not, every run of calls (register,
  heartbeat, unregister, enable, the state and healthy-count queries, the status dump)
  and checker passes, whatever is called while the mutex is released, leaves a
  well-formed watchdog where they are again. Read as numbers, each aggregate is the sum
  of the per-entry counters modulo \<open>2^32\<close>, and it is the sum itself as long as the sum
  is below \<open>2^32\<close>. The watchdog at start is well-formed with all of them 0
  (\<open>wdg_init_inv\<close>).
\<close>

theorem wdg_sums_invariant:
  fixes w :: wdg and tr :: "wdg_event list" and env :: wdg_window and ops :: "wdg_op list"
  defines "w' \<equiv> fst (wdg_run env ops (w, tr))"
  assumes "wdg_wf w" and "wdg_sums w"
  shows "wdg_wf w' \<and> wdg_sums w'
       \<and> unat (total_heartbeats (wdg_stats w'))
           = sum_list (map (unat \<circ> heartbeat_count) (wdg_table w')) mod 2 ^ 32
       \<and> unat (total_timeouts (wdg_stats w'))
           = sum_list (map (unat \<circ> timeout_count) (wdg_table w')) mod 2 ^ 32
       \<and> unat (total_recoveries (wdg_stats w'))
           = sum_list (map (unat \<circ> recovery_count) (wdg_table w')) mod 2 ^ 32
       \<and> (sum_list (map (unat \<circ> heartbeat_count) (wdg_table w')) < 2 ^ 32 \<longrightarrow>
            unat (total_heartbeats (wdg_stats w'))
              = sum_list (map (unat \<circ> heartbeat_count) (wdg_table w')))
       \<and> (sum_list (map (unat \<circ> timeout_count) (wdg_table w')) < 2 ^ 32 \<longrightarrow>
            unat (total_timeouts (wdg_stats w'))
              = sum_list (map (unat \<circ> timeout_count) (wdg_table w')))
       \<and> (sum_list (map (unat \<circ> recovery_count) (wdg_table w')) < 2 ^ 32 \<longrightarrow>
            unat (total_recoveries (wdg_stats w'))
              = sum_list (map (unat \<circ> recovery_count) (wdg_table w')))"
proof -
  from wdg_run_sums [of "(w, tr)" env ops] assms(2,3)
  have inv: "wdg_wf w'" "wdg_sums w'" by (simp_all add: w'_def)
  from inv(2) have
    "unat (total_heartbeats (wdg_stats w'))
       = sum_list (map (unat \<circ> heartbeat_count) (wdg_table w')) mod 2 ^ 32"
    "unat (total_timeouts (wdg_stats w'))
       = sum_list (map (unat \<circ> timeout_count) (wdg_table w')) mod 2 ^ 32"
    "unat (total_recoveries (wdg_stats w'))
       = sum_list (map (unat \<circ> recovery_count) (wdg_table w')) mod 2 ^ 32"
    by (simp_all add: wdg_sums_def unat_sum_list_word)
  with inv show ?thesis by simp
qed

text \<open>Two threads are registered and the first sends \<open>2^32 - 1\<close> heartbeats:
  \<open>total_heartbeats\<close> is \<open>2^32 - 1\<close> and so is the sum of the two
  \<open>heartbeat_count\<close>s. Then the second thread sends its first heartbeat:
  \<open>total_heartbeats\<close> wraps to 0, and the sum of the two counters, neither of which
  has wrapped, is \<open>2^32\<close>.\<close>

theorem wdg_sums_invariant_counterexample:
  "unat (total_heartbeats (wdg_stats (fst (wdg_run wdg_no_calls
      ([Call (Register ''a'' 1000 None 0), Call (Register ''b'' 1000 None 0),
        Call (Heartbeat 0 1)] @ replicate 4294967294 (Call (Heartbeat 0 1)))
      (wdg_init, []))))) = 4294967295
   \<and> sum_list (map (unat \<circ> heartbeat_count) (wdg_table (fst (wdg_run wdg_no_calls
      ([Call (Register ''a'' 1000 None 0), Call (Register ''b'' 1000 None 0),
        Call (Heartbeat 0 1)] @ replicate 4294967294 (Call (Heartbeat 0 1)))
      (wdg_init, []))))) = 4294967295
   \<and> unat (total_heartbeats (wdg_stats (fst (wdg_run wdg_no_calls
      (([Call (Register ''a'' 1000 None 0), Call (Register ''b'' 1000 None 0),
         Call (Heartbeat 0 1)] @ replicate 4294967294 (Call (Heartbeat 0 1)))
        @ [Call (Heartbeat 1 2)])
      (wdg_init, []))))) = 0
   \<and> sum_list (map (unat \<circ> heartbeat_count) (wdg_table (fst (wdg_run wdg_no_calls
      (([Call (Register ''a'' 1000 None 0), Call (Register ''b'' 1000 None 0),
         Call (Heartbeat 0 1)] @ replicate 4294967294 (Call (Heartbeat 0 1)))
        @ [Call (Heartbeat 1 2)])
      (wdg_init, []))))) = 4294967296"
proof -
  let ?pre = "[Call (Register ''a'' 1000 None 0), Call (Register ''b'' 1000 None 0),
        Call (Heartbeat 0 1)]"
  let ?a = "\<lparr>active = True, name = ''a'', timeout_ms = 1000, last_heartbeat = 1,
      state = WDG_STATE_HEALTHY, recovery_cb = None, heartbeat_count = 1,
      timeout_count = 0, recovery_count = 0\<rparr>"
  let ?b = "\<lparr>active = True, name = ''b'', timeout_ms = 1000, last_heartbeat = 0,
      state = WDG_STATE_IDLE, recovery_cb = None, heartbeat_count = 0,
      timeout_count = 0, recovery_count = 0\<rparr>"
  let ?w1 = "\<lparr>wdg_table = [?a, ?b, zero_entry, zero_entry, zero_entry, zero_entry,
        zero_entry, zero_entry], wdg_count = 2, wdg_enabled = True,
      wdg_stats = \<lparr>total_heartbeats = 1, total_timeouts = 0, total_recoveries = 0,
        checks_performed = 0\<rparr>\<rparr>"
  have pre: "wdg_run wdg_no_calls ?pre (wdg_init, []) = (?w1, [Registered 0, Registered 1])"
    by (simp add: wdg_register_def wdg_heartbeat_def wdg_init_def WDG_MAX_THREADS_def Let_def
          zero_entry_def eval_nat_numeral)
  have many: "wdg_run wdg_no_calls (replicate 4294967294 (Call (Heartbeat 0 1)))
      (?w1, [Registered 0, Registered 1])
     = (?w1\<lparr>wdg_table := (wdg_table ?w1)[nat 0 := (wdg_table ?w1 ! nat 0)\<lparr>heartbeat_count :=
            heartbeat_count (wdg_table ?w1 ! nat 0) + of_nat 4294967294\<rparr>],
          wdg_stats := (wdg_stats ?w1)\<lparr>total_heartbeats :=
            total_heartbeats (wdg_stats ?w1) + of_nat 4294967294\<rparr>\<rparr>,
        [Registered 0, Registered 1])"
    by (rule wdg_heartbeats) (simp_all add: WDG_MAX_THREADS_def)
  show ?thesis
    unfolding wdg_run_append pre many
    by (simp add: wdg_heartbeat_def WDG_MAX_THREADS_def Let_def zero_entry_def)
qed

theorem wdg_sums_invariant_witness:
  "wdg_wf wdg_init \<and> wdg_sums wdg_init
   \<and> wdg_sums (fst (wdg_run (wdg_beats_own_slot 510) [Call (Register ''a'' 100 None 0),
        Call (Heartbeat 0 10), Checker_tick 500, Call (Unregister 0), Call (Heartbeat 0 600),
        Call (Register ''b'' 50 (Some 2) 700), Checker_tick 800] (wdg_init, [])))
   \<and> total_timeouts (wdg_stats (fst (wdg_run (wdg_beats_own_slot 510)
        [Call (Register ''a'' 100 None 0),
        Call (Heartbeat 0 10), Checker_tick 500, Call (Unregister 0), Call (Heartbeat 0 600),
        Call (Register ''b'' 50 (Some 2) 700), Checker_tick 800] (wdg_init, [])))) = 2
   \<and> total_heartbeats (wdg_stats (fst (wdg_run (wdg_beats_own_slot 510)
        [Call (Register ''a'' 100 None 0),
        Call (Heartbeat 0 10), Checker_tick 500, Call (Unregister 0), Call (Heartbeat 0 600),
        Call (Register ''b'' 50 (Some 2) 700), Checker_tick 800] (wdg_init, [])))) = 3"
proof -
  let ?ops = "[Call (Register ''a'' 100 None 0),
        Call (Heartbeat 0 10), Checker_tick 500, Call (Unregister 0), Call (Heartbeat 0 600),
        Call (Register ''b'' 50 (Some 2) 700), Checker_tick 800]"
  have tt: "total_timeouts (wdg_stats (fst (wdg_run (wdg_beats_own_slot 510) ?ops
        (wdg_init, [])))) = 2"
    "total_heartbeats (wdg_stats (fst (wdg_run (wdg_beats_own_slot 510) ?ops
        (wdg_init, [])))) = 3"
    by (simp_all add: wdg_eval wdg_beats_own_slot_def)
  from wdg_init_inv have wf: "wdg_wf wdg_init" and sums: "wdg_sums wdg_init" by simp_all
  from wdg_sums_invariant [OF wf sums, of "wdg_beats_own_slot 510" ?ops "[]"]
  have "wdg_sums (fst (wdg_run (wdg_beats_own_slot 510) ?ops (wdg_init, [])))" by blast
  with wf sums tt show ?thesis by blast
qed

end
